theory Spec2Isabelle
  imports Main "HOL-Library.AList" "HOL-Library.Char_ord" "HOL-Library.List_Lexorder"
begin

section \<open>Values of the configuration\<close>

text \<open>
  The configuration handled by \<^verbatim>\<open>utils/conf.py\<close> is whatever \<^verbatim>\<open>json.load\<close> returns and
  \<^verbatim>\<open>json.dump\<close> accepts: nested Python values built from \<^verbatim>\<open>None\<close>, booleans, integers,
  strings, lists and dicts with string keys.  A dict keeps its insertion order, so it is an
  association list; its keys are pairwise distinct.  Floating point numbers are not part of
  this development.
\<close>

datatype json =
    JNull
  | JBool bool
  | JInt int
  | JStr string
  | JArr "json list"
  | JObj "(string \<times> json) list"

type_synonym config = "(string \<times> json) list"

text \<open>
  The exceptions that the functions of \<^verbatim>\<open>conf.py\<close> raise or let through.  The last
  one is no exception of Python: it marks a JSON text that holds a floating point number
  or a character beyond code point 255, which this development does not represent.
\<close>

datatype py_error =
    AttributeError
  | TypeError
  | KeyError
  | RuntimeError string
  | RefreshError string
  | TransportError string
  | FileExistsError
  | FileNotFoundError
  | NotADirectoryError
  | IsADirectoryError
  | JSONDecodeError
  | OutsideModel

subsection \<open>Python operations on these values\<close>

text \<open>\<^verbatim>\<open>bool(x)\<close>, as \<^verbatim>\<open>not x\<close> and \<^verbatim>\<open>x and ...\<close> read it.\<close>

fun truthy :: "json \<Rightarrow> bool" where
  "truthy JNull = False"
| "truthy (JBool b) = b"
| "truthy (JInt i) = (i \<noteq> 0)"
| "truthy (JStr s) = (s \<noteq> [])"
| "truthy (JArr xs) = (xs \<noteq> [])"
| "truthy (JObj kvs) = (kvs \<noteq> [])"

text \<open>\<^verbatim>\<open>x.get(k, d)\<close>: only a dict has the method.\<close>

fun py_get :: "json \<Rightarrow> string \<Rightarrow> json \<Rightarrow> py_error + json" where
  "py_get (JObj kvs) k d = Inr (case map_of kvs k of Some v \<Rightarrow> v | None \<Rightarrow> d)"
| "py_get _ k d = Inl AttributeError"

fun is_substring :: "string \<Rightarrow> string \<Rightarrow> bool" where
  "is_substring xs [] = (xs = [])"
| "is_substring xs (y # ys) = (take (length xs) (y # ys) = xs \<or> is_substring xs ys)"

text \<open>
  \<^verbatim>\<open>k in x\<close> for a string \<open>k\<close>: key membership in a dict, substring test in a string,
  element membership in a list, and a \<^verbatim>\<open>TypeError\<close> for a value that is not iterable.
\<close>

fun py_in :: "string \<Rightarrow> json \<Rightarrow> py_error + bool" where
  "py_in k (JObj kvs) = Inr (k \<in> set (map fst kvs))"
| "py_in k (JStr s) = Inr (is_substring k s)"
| "py_in k (JArr xs) = Inr (JStr k \<in> set xs)"
| "py_in k _ = Inl TypeError"

text \<open>
  \<^verbatim>\<open>x[k] = v\<close> for a string \<open>k\<close>: a dict replaces the value of an existing key where it
  stands and appends a new key; nothing else supports the assignment.
\<close>

fun py_setitem :: "json \<Rightarrow> string \<Rightarrow> json \<Rightarrow> py_error + json" where
  "py_setitem (JObj kvs) k v = Inr (JObj (AList.update k v kvs))"
| "py_setitem _ k v = Inl TypeError"

section \<open>The credential object\<close>

text \<open>
  Modelled from the spec: the class \<^verbatim>\<open>google.oauth2.credentials.Credentials\<close> is imported
  from the OAuth client library and is not part of the repository.  The spec (section 3)
  describes it as an object with the fields \<^verbatim>\<open>refresh_token\<close>, \<^verbatim>\<open>token\<close>, \<^verbatim>\<open>client_id\<close>,
  \<^verbatim>\<open>client_secret\<close> and \<^verbatim>\<open>token_uri\<close>, the derived properties \<^verbatim>\<open>valid\<close> (token present
  and not expired) and \<^verbatim>\<open>expired\<close>, and a refresh operation over a network transport.
  The fields hold whatever values the keyword arguments carried.
\<close>

record credentials =
  token :: json
  refresh_token :: json
  id_token :: json
  token_uri :: json
  client_id :: json
  client_secret :: json
  scopes :: json

text \<open>
  Modelled from the spec: the call \<^verbatim>\<open>Credentials(**credentials_dict)\<close>.  The argument of
  \<^verbatim>\<open>**\<close> must be a mapping; each key must be a parameter of the constructor, whose
  signature is \<^verbatim>\<open>(token, refresh_token=None, id_token=None, token_uri=None, client_id=None,
  client_secret=None, scopes=None)\<close>; the parameter \<^verbatim>\<open>token\<close> has no default.  Python raises
  \<^verbatim>\<open>TypeError\<close> otherwise.
\<close>

definition Credentials_params :: "string list" where
  "Credentials_params =
     [''token'', ''refresh_token'', ''id_token'', ''token_uri'', ''client_id'',
      ''client_secret'', ''scopes'']"

definition kwarg :: "(string \<times> json) list \<Rightarrow> string \<Rightarrow> json" where
  "kwarg kvs k = (case map_of kvs k of Some v \<Rightarrow> v | None \<Rightarrow> JNull)"

fun Credentials_init :: "json \<Rightarrow> py_error + credentials" where
  "Credentials_init (JObj kvs) =
     (if \<not> list_all (\<lambda>k. k \<in> set Credentials_params) (map fst kvs) then Inl TypeError
      else if ''token'' \<notin> set (map fst kvs) then Inl TypeError
      else Inr \<lparr> token = kwarg kvs ''token'',
                 refresh_token = kwarg kvs ''refresh_token'',
                 id_token = kwarg kvs ''id_token'',
                 token_uri = kwarg kvs ''token_uri'',
                 client_id = kwarg kvs ''client_id'',
                 client_secret = kwarg kvs ''client_secret'',
                 scopes = kwarg kvs ''scopes'' \<rparr>)"
| "Credentials_init _ = Inl TypeError"

text \<open>
  What the library and the network decide: whether a credential has expired (the library
  compares its expiry with the clock), and what a refresh over the transport
  \<^verbatim>\<open>Request()\<close> gives, a refreshed credential or an error of the library.
\<close>

record oauth_env =
  expired :: "credentials \<Rightarrow> bool"
  refresh :: "credentials \<Rightarrow> py_error + credentials"

text \<open>Modelled from the spec: \<^verbatim>\<open>valid\<close> is "token present and not expired".\<close>

definition valid :: "oauth_env \<Rightarrow> credentials \<Rightarrow> bool" where
  "valid env c = (token c \<noteq> JNull \<and> \<not> expired env c)"

section \<open>The credential manager\<close>

text \<open>
  The guard of \<^verbatim>\<open>get_saved_google_credentials\<close> (lines 74 to 79): a chain of \<^verbatim>\<open>or\<close>,
  evaluated from the left, that stops at the first true operand or at the first error.
\<close>

definition py_not_in :: "string \<Rightarrow> json \<Rightarrow> py_error + bool" where
  "py_not_in k x = (case py_in k x of Inl e \<Rightarrow> Inl e | Inr b \<Rightarrow> Inr (\<not> b))"

definition py_or :: "py_error + bool \<Rightarrow> py_error + bool \<Rightarrow> py_error + bool" where
  "py_or a b = (case a of Inl e \<Rightarrow> Inl e | Inr t \<Rightarrow> (if t then Inr True else b))"

definition record_unusable :: "json \<Rightarrow> py_error + bool" where
  "record_unusable credentials_dict =
     py_or (Inr (\<not> truthy credentials_dict))
       (py_or (py_not_in ''refresh_token'' credentials_dict)
          (py_or (py_not_in ''client_id'' credentials_dict)
             (py_not_in ''client_secret'' credentials_dict)))"

text \<open>
  \<^verbatim>\<open>get_saved_google_credentials(config)\<close>.  The result is the returned value
  (\<open>None\<close> for Python's \<^verbatim>\<open>None\<close>) or the exception, together with the list of the
  credentials on which \<^verbatim>\<open>refresh(Request())\<close> was called, the only network operation of
  the function.
\<close>

definition get_saved_google_credentials ::
  "oauth_env \<Rightarrow> config \<Rightarrow> (py_error + credentials option) \<times> credentials list" where
  "get_saved_google_credentials env config =
     (case py_get (JObj config) ''oauth'' (JObj []) of
        Inl e \<Rightarrow> (Inl e, [])
      | Inr oauth \<Rightarrow>
         (case py_get oauth ''google'' (JObj []) of
            Inl e \<Rightarrow> (Inl e, [])
          | Inr credentials_dict \<Rightarrow>
             (case record_unusable credentials_dict of
                Inl e \<Rightarrow> (Inl e, [])
              | Inr True \<Rightarrow> (Inr None, [])
              | Inr False \<Rightarrow>
                 (case Credentials_init credentials_dict of
                    Inl e \<Rightarrow> (Inl e, [])
                  | Inr c \<Rightarrow>
                     if \<not> valid env c then
                       if expired env c \<and> truthy (refresh_token c) then
                         (case refresh env c of
                            Inl e \<Rightarrow> (Inl e, [c])
                          | Inr c' \<Rightarrow> (Inr (Some c'), [c]))
                       else (Inr None, [])
                     else (Inr (Some c), [])))))"

text \<open>The record that \<^verbatim>\<open>stash_google_credentials\<close> builds (lines 97 to 103).\<close>

definition credential_record :: "credentials \<Rightarrow> json" where
  "credential_record c =
     JObj [(''refresh_token'', refresh_token c),
           (''token'', token c),
           (''client_id'', client_id c),
           (''client_secret'', client_secret c),
           (''token_uri'', token_uri c)]"

text \<open>
  \<^verbatim>\<open>stash_google_credentials(config, credentials)\<close>.  The function changes the dict it
  is given and returns that dict.  The model gives the outcome (the returned dict, or the
  exception) paired with the state of the caller's dict when the call ends.
\<close>

definition stash_google_credentials ::
  "config \<Rightarrow> credentials \<Rightarrow> (py_error + config) \<times> config" where
  "stash_google_credentials config c =
     (let config1 = (if ''oauth'' \<notin> set (map fst config)
                     then AList.update ''oauth'' (JObj []) config else config)
      in case map_of config1 ''oauth'' of
           None \<Rightarrow> (Inl KeyError, config1)
         | Some oauth \<Rightarrow>
            (case py_setitem oauth ''google'' (credential_record c) of
               Inl e \<Rightarrow> (Inl e, config1)
             | Inr oauth' \<Rightarrow>
                (let config2 = AList.update ''oauth'' oauth' config1
                 in (Inr config2, config2))))"

section \<open>The JSON text of a configuration\<close>

text \<open>
  \<^verbatim>\<open>json.dump(config, file, indent=4, sort_keys=True)\<close> and \<^verbatim>\<open>json.load(file)\<close> belong to
  Python's standard library.  They are modelled here on strings of characters with code
  points below 256, after the encoder and the decoder of the \<^verbatim>\<open>json\<close> package.
\<close>

subsection \<open>Encoding\<close>

definition digit_char :: "nat \<Rightarrow> char" where
  "digit_char d = ''0123456789abcdef'' ! d"

function digits_of :: "nat \<Rightarrow> string" where
  "digits_of n = (if n < 10 then [digit_char n] else digits_of (n div 10) @ [digit_char (n mod 10)])"
  by pat_completeness auto
termination
  by (relation "measure (\<lambda>n. n)") auto

text \<open>\<^verbatim>\<open>int.__repr__\<close>.\<close>

definition repr_int :: "int \<Rightarrow> string" where
  "repr_int i = (if i < 0 then CHR ''-'' # digits_of (nat (- i)) else digits_of (nat i))"

text \<open>
  \<^verbatim>\<open>encode_basestring_ascii\<close>: the quote and the backslash are escaped, the control
  characters with a short name take it, and every other character outside the range from
  the space to the tilde is written \<^verbatim>\<open>\uXXXX\<close> in lower-case hexadecimal.
\<close>

definition escape_char :: "char \<Rightarrow> string" where
  "escape_char c =
     (if c = CHR 0x22 then [CHR 0x5C, CHR 0x22]
      else if c = CHR 0x5C then [CHR 0x5C, CHR 0x5C]
      else if c = CHR 0x08 then [CHR 0x5C, CHR ''b'']
      else if c = CHR 0x0C then [CHR 0x5C, CHR ''f'']
      else if c = CHR 0x0A then [CHR 0x5C, CHR ''n'']
      else if c = CHR 0x0D then [CHR 0x5C, CHR ''r'']
      else if c = CHR 0x09 then [CHR 0x5C, CHR ''t'']
      else if CHR 0x20 \<le> c \<and> c \<le> CHR 0x7E then [c]
      else [CHR 0x5C, CHR ''u'', CHR ''0'', CHR ''0'',
            digit_char (of_char c div 16), digit_char (of_char c mod 16)])"

definition encode_string :: "string \<Rightarrow> string" where
  "encode_string s = CHR 0x22 # concat (map escape_char s) @ [CHR 0x22]"

text \<open>The line break and the indentation that precede an item at a nesting level.\<close>

definition newline_indent :: "nat \<Rightarrow> string" where
  "newline_indent level = CHR 0x0A # replicate (4 * level) CHR '' ''"

fun join_items :: "string \<Rightarrow> string list \<Rightarrow> string" where
  "join_items sep [] = []"
| "join_items sep [x] = x"
| "join_items sep (x # y # ys) = x @ sep @ join_items sep (y # ys)"

text \<open>
  \<^verbatim>\<open>_iterencode\<close> with \<^verbatim>\<open>indent=4\<close> and \<^verbatim>\<open>sort_keys=True\<close>: the item separator is a comma,
  the key separator a colon and a space, an empty list or dict is written without a line
  break, and the items of a dict are taken in the order of their keys.
\<close>

function json_encode :: "nat \<Rightarrow> json \<Rightarrow> string" where
  "json_encode level JNull = ''null''"
| "json_encode level (JBool b) = (if b then ''true'' else ''false'')"
| "json_encode level (JInt i) = repr_int i"
| "json_encode level (JStr s) = encode_string s"
| "json_encode level (JArr xs) =
     (if xs = [] then ''[]''
      else ''['' @ newline_indent (Suc level)
        @ join_items (CHR '','' # newline_indent (Suc level))
            (map (json_encode (Suc level)) xs)
        @ newline_indent level @ '']'')"
| "json_encode level (JObj kvs) =
     (if kvs = [] then ''{}''
      else ''{'' @ newline_indent (Suc level)
        @ join_items (CHR '','' # newline_indent (Suc level))
            (map (\<lambda>kv. encode_string (fst kv) @ '': '' @ json_encode (Suc level) (snd kv))
               (sort_key fst kvs))
        @ newline_indent level @ ''}'')"
  by pat_completeness auto
termination
proof (relation "measure (\<lambda>(level, v). size v)", goal_cases)
  case 1
  show ?case by simp
next
  case (2 level xs x)
  then show ?case by (simp add: less_Suc_eq_le size_list_estimation')
next
  case (3 level kvs kv)
  then have "kv \<in> set kvs" by simp
  then have "size (snd kv) < Suc (size_list (size_prod (\<lambda>_. 0) size) kvs)"
    by (induction kvs) auto
  then show ?case by simp
qed

definition json_dumps :: "json \<Rightarrow> string" where
  "json_dumps v = json_encode 0 v"

subsection \<open>Decoding\<close>

definition is_ws :: "char \<Rightarrow> bool" where
  "is_ws c = (c = CHR '' '' \<or> c = CHR 0x09 \<or> c = CHR 0x0A \<or> c = CHR 0x0D)"

definition skip_ws :: "string \<Rightarrow> string" where
  "skip_ws s = dropWhile is_ws s"

definition is_digit :: "char \<Rightarrow> bool" where
  "is_digit c = (CHR ''0'' \<le> c \<and> c \<le> CHR ''9'')"

definition hex_val :: "char \<Rightarrow> nat option" where
  "hex_val c =
     (if CHR ''0'' \<le> c \<and> c \<le> CHR ''9'' then Some (of_char c - 48)
      else if CHR ''a'' \<le> c \<and> c \<le> CHR ''f'' then Some (of_char c - 87)
      else if CHR ''A'' \<le> c \<and> c \<le> CHR ''F'' then Some (of_char c - 55)
      else None)"

definition hex4 :: "string \<Rightarrow> nat option" where
  "hex4 xs =
     (case map hex_val xs of
        [Some a, Some b, Some c, Some d] \<Rightarrow> Some (((a * 16 + b) * 16 + c) * 16 + d)
      | _ \<Rightarrow> None)"

definition unescape :: "char \<Rightarrow> char option" where
  "unescape e =
     (if e = CHR 0x22 then Some (CHR 0x22)
      else if e = CHR 0x5C then Some (CHR 0x5C)
      else if e = CHR ''/'' then Some (CHR ''/'')
      else if e = CHR ''b'' then Some (CHR 0x08)
      else if e = CHR ''f'' then Some (CHR 0x0C)
      else if e = CHR ''n'' then Some (CHR 0x0A)
      else if e = CHR ''r'' then Some (CHR 0x0D)
      else if e = CHR ''t'' then Some (CHR 0x09)
      else None)"

definition cons_char :: "char \<Rightarrow> py_error + string \<times> string \<Rightarrow> py_error + string \<times> string" where
  "cons_char c r = (case r of Inl e \<Rightarrow> Inl e | Inr (s, rest) \<Rightarrow> Inr (c # s, rest))"

text \<open>
  \<^verbatim>\<open>scanstring\<close> in strict mode, from the character after the opening quote: the
  string read and the text after the closing quote.
\<close>

fun scanstring :: "string \<Rightarrow> py_error + string \<times> string" where
  "scanstring [] = Inl JSONDecodeError"
| "scanstring (c # cs) =
     (if c = CHR 0x22 then Inr ([], cs)
      else if c = CHR 0x5C then
        (case cs of
           [] \<Rightarrow> Inl JSONDecodeError
         | e # cs' \<Rightarrow>
            if e = CHR ''u'' then
              (case hex4 (take 4 cs') of
                 None \<Rightarrow> Inl JSONDecodeError
               | Some n \<Rightarrow>
                  if n < 256 then cons_char (char_of n) (scanstring (drop 4 cs'))
                  else Inl OutsideModel)
            else
              (case unescape e of
                 None \<Rightarrow> Inl JSONDecodeError
               | Some ch \<Rightarrow> cons_char ch (scanstring cs')))
      else if c < CHR 0x20 then Inl JSONDecodeError
      else cons_char c (scanstring cs))"

text \<open>
  \<^verbatim>\<open>NUMBER_RE\<close>: an optional minus sign and an integer part without leading zeros.  A
  fraction or an exponent after it makes the number a float.
\<close>

definition nat_of_digits :: "string \<Rightarrow> nat" where
  "nat_of_digits ds = foldl (\<lambda>n c. 10 * n + (of_char c - 48)) 0 ds"

definition starts_float :: "string \<Rightarrow> bool" where
  "starts_float r =
     (case r of
        [] \<Rightarrow> False
      | c # r' \<Rightarrow>
         if c = CHR ''.'' then (case r' of [] \<Rightarrow> False | d # _ \<Rightarrow> is_digit d)
         else if c = CHR ''e'' \<or> c = CHR ''E'' then
           (case r' of
              [] \<Rightarrow> False
            | d # r'' \<Rightarrow>
               is_digit d \<or>
               ((d = CHR ''+'' \<or> d = CHR ''-'') \<and> (case r'' of [] \<Rightarrow> False | d' # _ \<Rightarrow> is_digit d')))
         else False)"

definition match_number :: "string \<Rightarrow> (py_error + json \<times> string) option" where
  "match_number s =
     (let neg = (take 1 s = ''-'');
          s1 = (if neg then drop 1 s else s);
          ds = takeWhile is_digit s1
      in if ds = [] then None
         else
           let intpart = (if hd ds = CHR ''0'' then ''0'' else ds);
               r = drop (length intpart) s1
           in if starts_float r then Some (Inl OutsideModel)
              else Some (Inr (JInt (if neg then - int (nat_of_digits intpart)
                                    else int (nat_of_digits intpart)), r)))"

text \<open>\<^verbatim>\<open>dict(pairs)\<close>: a key that comes again keeps its place and takes the later value.\<close>

definition py_dict :: "(string \<times> json) list \<Rightarrow> (string \<times> json) list" where
  "py_dict pairs = foldl (\<lambda>d kv. AList.update (fst kv) (snd kv) d) [] pairs"

lemma length_skip_ws: "length (skip_ws s) \<le> length s"
  by (simp add: skip_ws_def length_dropWhile_le)

lemma scanstring_shorter: "scanstring s = Inr (str, r) \<Longrightarrow> length r < length s"
proof (induction s arbitrary: str r rule: scanstring.induct)
  case 1
  then show ?case by simp
next
  case (2 c cs)
  then show ?case
    by (fastforce simp: cons_char_def less_Suc_eq
          split: if_splits list.splits option.splits sum.splits prod.splits)
qed

text \<open>
  \<^verbatim>\<open>scan_once\<close>, with \<^verbatim>\<open>JSONArray\<close> and \<^verbatim>\<open>JSONObject\<close> after their opening bracket,
  and the loops of the two over the items.  Each gives the value read and the text that
  follows it.  The tests \<open>length r < length s\<close> hold whenever they are reached, since a
  value takes at least one character (lemma \<open>scan_once_shorter\<close>).
\<close>

function scan_once :: "string \<Rightarrow> py_error + json \<times> string"
  and array_items :: "string \<Rightarrow> py_error + json list \<times> string"
  and object_members :: "string \<Rightarrow> py_error + (string \<times> json) list \<times> string"
where
  "scan_once s =
     (case s of
        [] \<Rightarrow> Inl JSONDecodeError
      | c # cs \<Rightarrow>
         if c = CHR 0x22 then
           (case scanstring cs of Inl e \<Rightarrow> Inl e | Inr (str, r) \<Rightarrow> Inr (JStr str, r))
         else if c = CHR ''{'' then
           (case skip_ws cs of
              [] \<Rightarrow> Inl JSONDecodeError
            | c' # r \<Rightarrow>
               if c' = CHR ''}'' then Inr (JObj [], r)
               else (case object_members (c' # r) of
                       Inl e \<Rightarrow> Inl e
                     | Inr (pairs, r') \<Rightarrow> Inr (JObj (py_dict pairs), r')))
         else if c = CHR ''['' then
           (case skip_ws cs of
              [] \<Rightarrow> Inl JSONDecodeError
            | c' # r \<Rightarrow>
               if c' = CHR '']'' then Inr (JArr [], r)
               else (case array_items (c' # r) of
                       Inl e \<Rightarrow> Inl e
                     | Inr (vs, r') \<Rightarrow> Inr (JArr vs, r')))
         else if take 4 s = ''null'' then Inr (JNull, drop 4 s)
         else if take 4 s = ''true'' then Inr (JBool True, drop 4 s)
         else if take 5 s = ''false'' then Inr (JBool False, drop 5 s)
         else
           (case match_number s of
              Some res \<Rightarrow> res
            | None \<Rightarrow>
               if take 3 s = ''NaN'' \<or> take 8 s = ''Infinity'' \<or> take 9 s = ''-Infinity''
               then Inl OutsideModel else Inl JSONDecodeError))"
| "array_items s =
     (case scan_once s of
        Inl e \<Rightarrow> Inl e
      | Inr (v, r) \<Rightarrow>
         if \<not> length r < length s then Inl JSONDecodeError
         else
           (case skip_ws r of
              [] \<Rightarrow> Inl JSONDecodeError
            | c # r' \<Rightarrow>
               if c = CHR '']'' then Inr ([v], r')
               else if c = CHR '','' then
                 (case array_items (skip_ws r') of
                    Inl e \<Rightarrow> Inl e
                  | Inr (vs, r'') \<Rightarrow> Inr (v # vs, r''))
               else Inl JSONDecodeError))"
| "object_members s =
     (case s of
        [] \<Rightarrow> Inl JSONDecodeError
      | q # cs \<Rightarrow>
         if q \<noteq> CHR 0x22 then Inl JSONDecodeError
         else
           (case scanstring cs of
              Inl e \<Rightarrow> Inl e
            | Inr (key, r) \<Rightarrow>
               (case skip_ws r of
                  [] \<Rightarrow> Inl JSONDecodeError
                | colon # r1 \<Rightarrow>
                   if colon \<noteq> CHR '':'' then Inl JSONDecodeError
                   else
                     (case scan_once (skip_ws r1) of
                        Inl e \<Rightarrow> Inl e
                      | Inr (v, r2) \<Rightarrow>
                         if \<not> length r2 < length (skip_ws r1) then Inl JSONDecodeError
                         else
                           (case skip_ws r2 of
                              [] \<Rightarrow> Inl JSONDecodeError
                            | c # r3 \<Rightarrow>
                               if c = CHR ''}'' then Inr ([(key, v)], r3)
                               else if c = CHR '','' then
                                 (case object_members (skip_ws r3) of
                                    Inl e \<Rightarrow> Inl e
                                  | Inr (pairs, r4) \<Rightarrow> Inr ((key, v) # pairs, r4))
                               else Inl JSONDecodeError)))))"
  by pat_completeness auto
termination
proof (relation "measure (\<lambda>x. case x of
          Inl s \<Rightarrow> 2 * length s
        | Inr (Inl s) \<Rightarrow> 2 * length s + 1
        | Inr (Inr s) \<Rightarrow> 2 * length s + 1)", goal_cases)
  case 1
  show ?case by simp
next
  case (2 s c cs c' r)
  then have "length (c' # r) \<le> length cs"
    using length_skip_ws [of cs] by simp
  with 2 show ?case by simp
next
  case (3 s c cs c' r)
  then have "length (c' # r) \<le> length cs"
    using length_skip_ws [of cs] by simp
  with 3 show ?case by simp
next
  case (4 s)
  show ?case by simp
next
  case (5 s x v r c r')
  then have "length (c # r') \<le> length r"
    using length_skip_ws [of r] by simp
  with 5 show ?case using length_skip_ws [of r'] by simp
next
  case (6 s q cs x key r colon r1)
  then have "length r < length cs" "length (colon # r1) \<le> length r"
    using scanstring_shorter [of cs key r] length_skip_ws [of r] by simp_all
  with 6 show ?case using length_skip_ws [of r1] by simp
next
  case (7 s q cs x key r colon r1 y v r2 c r3)
  then have "length r < length cs" "length (colon # r1) \<le> length r"
    "length (c # r3) \<le> length r2"
    using scanstring_shorter [of cs key r] length_skip_ws [of r] length_skip_ws [of r2]
    by simp_all
  with 7 show ?case using length_skip_ws [of r1] length_skip_ws [of r3] by simp
qed

text \<open>
  \<^verbatim>\<open>json.loads\<close>: white space, one value, white space, and nothing more
  (\<^verbatim>\<open>JSONDecoder.decode\<close>).
\<close>

definition json_loads :: "string \<Rightarrow> py_error + json" where
  "json_loads s =
     (case scan_once (skip_ws s) of
        Inl e \<Rightarrow> Inl e
      | Inr (v, r) \<Rightarrow> if skip_ws r = [] then Inr v else Inl JSONDecodeError)"

subsection \<open>Equality of configurations\<close>

text \<open>
  A value as Python holds it has no key twice in a dict.
\<close>

function distinct_keys :: "json \<Rightarrow> bool" where
  "distinct_keys JNull = True"
| "distinct_keys (JBool b) = True"
| "distinct_keys (JInt i) = True"
| "distinct_keys (JStr s) = True"
| "distinct_keys (JArr xs) = (\<forall>x\<in>set xs. distinct_keys x)"
| "distinct_keys (JObj kvs) = (distinct (map fst kvs) \<and> (\<forall>kv\<in>set kvs. distinct_keys (snd kv)))"
  by pat_completeness auto
termination
proof (relation "measure size", goal_cases)
  case 1
  show ?case by simp
next
  case (2 xs x)
  then show ?case by (simp add: less_Suc_eq_le size_list_estimation')
next
  case (3 kvs kv)
  then have "size (snd kv) < Suc (size_list (size_prod (\<lambda>_. 0) size) kvs)"
    by (induction kvs) auto
  then show ?case by simp
qed

text \<open>
  Python's \<^verbatim>\<open>==\<close> on these values: lists are equal item by item, dicts are equal when
  they have the same keys with equal values, in whatever order the keys stand, and a
  boolean equals the integer 0 or 1 that it is.
\<close>

lemma size_lookup:
  "map_of kvs k = Some v \<Longrightarrow> size v < Suc (size_list (size_prod (\<lambda>_. 0) size) kvs)"
  by (induction kvs) (auto split: if_splits)

function (sequential) py_eq :: "json \<Rightarrow> json \<Rightarrow> bool" where
  "py_eq (JArr xs) (JArr ys) =
     (length xs = length ys \<and> (\<forall>i<length xs. py_eq (xs ! i) (ys ! i)))"
| "py_eq (JObj kvs) (JObj kws) =
     (set (map fst kvs) = set (map fst kws)
      \<and> (\<forall>k\<in>set (map fst kvs). py_eq (the (map_of kvs k)) (the (map_of kws k))))"
| "py_eq (JBool b) (JInt i) = (i = (if b then 1 else 0))"
| "py_eq (JInt i) (JBool b) = (i = (if b then 1 else 0))"
| "py_eq a b = (a = b)"
  by pat_completeness auto
termination
proof (relation "measure (\<lambda>(a, b). size a)", goal_cases)
  case 1
  show ?case by simp
next
  case (2 xs ys i)
  then have "xs ! i \<in> set xs" by simp
  then show ?case by (simp add: less_Suc_eq_le size_list_estimation')
next
  case (3 kvs kws k)
  then obtain v where "map_of kvs k = Some v"
    by (metis domD dom_map_of_conv_image_fst set_map)
  then show ?case using size_lookup [of kvs k v] by simp
qed

text \<open>The same value with the items of every dict in the order of their keys.\<close>

function normalise :: "json \<Rightarrow> json" where
  "normalise JNull = JNull"
| "normalise (JBool b) = JBool b"
| "normalise (JInt i) = JInt i"
| "normalise (JStr s) = JStr s"
| "normalise (JArr xs) = JArr (map normalise xs)"
| "normalise (JObj kvs) = JObj (map (\<lambda>kv. (fst kv, normalise (snd kv))) (sort_key fst kvs))"
  by pat_completeness auto
termination
proof (relation "measure size", goal_cases)
  case 1
  show ?case by simp
next
  case (2 xs x)
  then show ?case by (simp add: less_Suc_eq_le size_list_estimation')
next
  case (3 kvs kv)
  then have "kv \<in> set kvs" by simp
  then have "size (snd kv) < Suc (size_list (size_prod (\<lambda>_. 0) size) kvs)"
    by (induction kvs) auto
  then show ?case by simp
qed

subsection \<open>Shapes of the encoded text\<close>

text \<open>
  What follows a value in the text that the encoder writes: nothing, a comma or a line
  break.
\<close>

definition ends_value :: "string \<Rightarrow> bool" where
  "ends_value rest = (case rest of [] \<Rightarrow> True | c # _ \<Rightarrow> c = CHR '','' \<or> c = CHR 0x0A)"

text \<open>The first character of an encoded value is no white space and no closing bracket.\<close>

definition value_start :: "char \<Rightarrow> bool" where
  "value_start c = (\<not> is_ws c \<and> c \<noteq> CHR '']'' \<and> c \<noteq> CHR ''}'')"

section \<open>Paths and the file system\<close>

definition CONFIG_DIR :: string where
  "CONFIG_DIR = ''~/.config/gcal-discord-poster''"

definition CONFIG_FILE_NAME :: string where
  "CONFIG_FILE_NAME = ''config.json''"

text \<open>
  \<^verbatim>\<open>os.path.expanduser\<close> of \<^verbatim>\<open>posixpath\<close>, for the home directory \<open>home\<close> that the
  environment gives (\<^verbatim>\<open>HOME\<close>, or the entry of the password database): a leading
  \<^verbatim>\<open>~\<close> that a slash or the end of the path follows is replaced by the home directory
  without its trailing slashes.  The form \<^verbatim>\<open>~user\<close> is left as it is, as for a user
  that is not known.
\<close>

definition rstrip_slash :: "string \<Rightarrow> string" where
  "rstrip_slash s = rev (dropWhile (\<lambda>c. c = CHR ''/'') (rev s))"

definition expanduser :: "string \<Rightarrow> string \<Rightarrow> string" where
  "expanduser home path =
     (if take 1 path \<noteq> ''~'' then path
      else
        let i = Suc (length (takeWhile (\<lambda>c. c \<noteq> CHR ''/'') (drop 1 path)))
        in if i = 1 then
             (let r = rstrip_slash home @ drop i path in if r = [] then ''/'' else r)
           else path)"

text \<open>\<^verbatim>\<open>os.path.join(a, b)\<close> of \<^verbatim>\<open>posixpath\<close>.\<close>

definition os_path_join :: "string \<Rightarrow> string \<Rightarrow> string" where
  "os_path_join a b =
     (if take 1 b = ''/'' then b
      else if a = [] \<or> last a = CHR ''/'' then a @ b
      else a @ ''/'' @ b)"

text \<open>
  The file system holds directories and regular files with their text, each under the
  list of the names that lead to it; the empty list is the root, a directory.  Access
  rights, links and devices are not represented.  A path is read as the list of its
  names between slashes, the name \<^verbatim>\<open>.\<close> left out; the name \<^verbatim>\<open>..\<close> is not interpreted.
\<close>

datatype node = File string | Dir

type_synonym filesystem = "string list \<Rightarrow> node option"

function components :: "string \<Rightarrow> string list" where
  "components [] = []"
| "components (c # cs) =
     (if c = CHR ''/'' then components cs
      else
        let name = c # takeWhile (\<lambda>x. x \<noteq> CHR ''/'') cs;
            names = components (dropWhile (\<lambda>x. x \<noteq> CHR ''/'') cs)
        in if name = ''.'' then names else name # names)"
  by pat_completeness auto
termination
  by (relation "measure length") (auto simp: length_dropWhile_le less_Suc_eq_le)

definition node_at :: "filesystem \<Rightarrow> string list \<Rightarrow> node option" where
  "node_at fs p = (if p = [] then Some Dir else fs p)"

definition os_path_exists :: "filesystem \<Rightarrow> string \<Rightarrow> bool" where
  "os_path_exists fs path = (node_at fs (components path) \<noteq> None)"

definition os_path_isdir :: "filesystem \<Rightarrow> string \<Rightarrow> bool" where
  "os_path_isdir fs path = (node_at fs (components path) = Some Dir)"

definition os_path_isfile :: "filesystem \<Rightarrow> string \<Rightarrow> bool" where
  "os_path_isfile fs path =
     (case node_at fs (components path) of Some (File text) \<Rightarrow> True | _ \<Rightarrow> False)"

text \<open>\<^verbatim>\<open>os.mkdir\<close>: the outcome and the file system after the call.\<close>

definition os_mkdir :: "filesystem \<Rightarrow> string list \<Rightarrow> (py_error + unit) \<times> filesystem" where
  "os_mkdir fs p =
     (if node_at fs p \<noteq> None then (Inl FileExistsError, fs)
      else case node_at fs (butlast p) of
             None \<Rightarrow> (Inl FileNotFoundError, fs)
           | Some (File text) \<Rightarrow> (Inl NotADirectoryError, fs)
           | Some Dir \<Rightarrow> (Inr (), fs(p \<mapsto> Dir)))"

text \<open>
  \<^verbatim>\<open>os.makedirs(name)\<close>: when the parent of the path does not exist it is made first,
  in the same way, and a \<^verbatim>\<open>FileExistsError\<close> of that step is passed over; then the
  directory itself is made with \<^verbatim>\<open>os.mkdir\<close>.
\<close>

function os_makedirs :: "filesystem \<Rightarrow> string list \<Rightarrow> (py_error + unit) \<times> filesystem" where
  "os_makedirs fs p =
     (let head = butlast p in
      if head \<noteq> [] \<and> node_at fs head = None then
        (case os_makedirs fs head of
           (Inl e, fs1) \<Rightarrow>
             if e = FileExistsError then
               (if last p = ''.'' then (Inr (), fs1) else os_mkdir fs1 p)
             else (Inl e, fs1)
         | (Inr u, fs1) \<Rightarrow> if last p = ''.'' then (Inr (), fs1) else os_mkdir fs1 p)
      else os_mkdir fs p)"
  by pat_completeness auto
termination
proof (relation "measure (\<lambda>(fs, p). length p)", goal_cases)
  case 1
  show ?case by simp
next
  case (2 fs p head)
  then have "p \<noteq> []" "head = butlast p" by auto
  then show ?case by simp
qed

text \<open>
  \<^verbatim>\<open>open(path, "w")\<close>, the writing of a text and the closing of the file: the file is
  made or emptied, and holds the text in the end.
\<close>

definition write_file :: "filesystem \<Rightarrow> string \<Rightarrow> string \<Rightarrow> (py_error + unit) \<times> filesystem" where
  "write_file fs path text =
     (let p = components path in
      case node_at fs p of
        Some Dir \<Rightarrow> (Inl IsADirectoryError, fs)
      | _ \<Rightarrow>
         (case node_at fs (butlast p) of
            None \<Rightarrow> (Inl FileNotFoundError, fs)
          | Some (File t) \<Rightarrow> (Inl NotADirectoryError, fs)
          | Some Dir \<Rightarrow> (Inr (), fs(p \<mapsto> File text))))"

text \<open>\<^verbatim>\<open>open(path, "r")\<close> and the reading of the whole file.\<close>

definition read_file :: "filesystem \<Rightarrow> string \<Rightarrow> py_error + string" where
  "read_file fs path =
     (case node_at fs (components path) of
        None \<Rightarrow> Inl FileNotFoundError
      | Some Dir \<Rightarrow> Inl IsADirectoryError
      | Some (File text) \<Rightarrow> Inr text)"

section \<open>The config store\<close>

text \<open>\<^verbatim>\<open>msg % arg\<close> for a message with one \<^verbatim>\<open>'%s'\<close> between single quotes.\<close>

definition setup_msg :: "string \<Rightarrow> string" where
  "setup_msg arg = ''Unable to setup config dir at '' @ [CHR 0x27] @ arg @ [CHR 0x27]"

definition is_dir_msg :: "string \<Rightarrow> string" where
  "is_dir_msg arg = ''Config path at '' @ [CHR 0x27] @ arg @ [CHR 0x27] @ '' is a directory.''"

text \<open>
  \<^verbatim>\<open>setup_config_dir()\<close>: the outcome and the file system after the call.  The message
  of the error names \<^verbatim>\<open>CONFIG_DIR\<close> as it is written, not the expanded path.
\<close>

definition setup_config_dir :: "string \<Rightarrow> filesystem \<Rightarrow> (py_error + unit) \<times> filesystem" where
  "setup_config_dir home fs =
     (let real_config_dir = expanduser home CONFIG_DIR in
      if \<not> os_path_exists fs real_config_dir then
        os_makedirs fs (components real_config_dir)
      else if \<not> os_path_isdir fs real_config_dir then
        (Inl (RuntimeError (setup_msg CONFIG_DIR)), fs)
      else (Inr (), fs))"

definition get_config_path :: "string \<Rightarrow> string" where
  "get_config_path home = os_path_join (expanduser home CONFIG_DIR) CONFIG_FILE_NAME"

text \<open>\<^verbatim>\<open>get_config()\<close>: the value that \<^verbatim>\<open>json.load\<close> gives, or the empty dict.\<close>

definition get_config :: "string \<Rightarrow> filesystem \<Rightarrow> py_error + json" where
  "get_config home fs =
     (let config_path = get_config_path home in
      if os_path_isdir fs config_path then
        Inl (RuntimeError (is_dir_msg config_path))
      else if os_path_isfile fs config_path then
        (case read_file fs config_path of
           Inl e \<Rightarrow> Inl e
         | Inr text \<Rightarrow> json_loads text)
      else Inr (JObj []))"

text \<open>\<^verbatim>\<open>save_config(config)\<close>: the outcome and the file system after the call.\<close>

definition save_config :: "string \<Rightarrow> config \<Rightarrow> filesystem \<Rightarrow> (py_error + unit) \<times> filesystem" where
  "save_config home config fs =
     (let config_path = get_config_path home in
      if os_path_isdir fs config_path then
        (Inl (RuntimeError (is_dir_msg config_path)), fs)
      else
        (case setup_config_dir home fs of
           (Inl e, fs1) \<Rightarrow> (Inl e, fs1)
         | (Inr u, fs1) \<Rightarrow> write_file fs1 config_path (json_dumps (JObj config))))"

section \<open>Properties of the credential manager\<close>

lemma get_saved_lookup:
  assumes "map_of config ''oauth'' = Some (JObj oauth)"
    and "map_of oauth ''google'' = Some d"
  shows "get_saved_google_credentials env config =
     (case record_unusable d of
        Inl e \<Rightarrow> (Inl e, [])
      | Inr True \<Rightarrow> (Inr None, [])
      | Inr False \<Rightarrow>
         (case Credentials_init d of
            Inl e \<Rightarrow> (Inl e, [])
          | Inr c \<Rightarrow>
             if \<not> valid env c then
               if expired env c \<and> truthy (refresh_token c) then
                 (case refresh env c of
                    Inl e \<Rightarrow> (Inl e, [c])
                  | Inr c' \<Rightarrow> (Inr (Some c'), [c]))
               else (Inr None, [])
             else (Inr (Some c), [])))"
  using assms by (simp add: get_saved_google_credentials_def)

lemma record_unusable_falsy: "\<not> truthy g \<Longrightarrow> record_unusable g = Inr True"
  by (simp add: record_unusable_def py_or_def)

lemma record_unusable_JObj:
  "record_unusable (JObj d) =
     Inr (d = [] \<or> ''refresh_token'' \<notin> fst ` set d \<or> ''client_id'' \<notin> fst ` set d
            \<or> ''client_secret'' \<notin> fst ` set d)"
  by (auto simp: record_unusable_def py_or_def py_not_in_def)

lemma Credentials_init_field:
  assumes "Credentials_init (JObj d) = Inr c" and "k \<in> fst ` set d"
  shows "map_of d k = Some (kwarg d k)"
proof -
  from assms(2) obtain v where "map_of d k = Some v"
    by (metis domD dom_map_of_conv_image_fst)
  then show ?thesis by (simp add: kwarg_def)
qed

lemma Credentials_init_fields:
  assumes "Credentials_init (JObj d) = Inr c"
  shows "token c = kwarg d ''token''" "refresh_token c = kwarg d ''refresh_token''"
    "client_id c = kwarg d ''client_id''" "client_secret c = kwarg d ''client_secret''"
    "token_uri c = kwarg d ''token_uri''"
  using assms by (auto split: if_splits)

lemma map_of_update:
  "map_of (AList.update k v al) k' = (if k' = k then Some v else map_of al k')"
  by (simp add: update_conv')

lemma key_of_lookup: "map_of al k = Some v \<Longrightarrow> k \<in> set (map fst al)"
  by (metis map_of_eq_None_iff option.distinct(1) set_map)

text \<open>
  C1 (as amended).  Let \<^verbatim>\<open>"oauth"\<close> be absent from the config or hold a mapping, and let
  \<^verbatim>\<open>"google"\<close> under it be absent, or hold a value that Python takes for false (the
  empty record among them), or hold a record that lacks one of the keys
  \<^verbatim>\<open>"refresh_token"\<close>, \<^verbatim>\<open>"client_id"\<close> and \<^verbatim>\<open>"client_secret"\<close>.  Then
  \<^verbatim>\<open>get_saved_google_credentials\<close> returns \<^verbatim>\<open>None\<close>: it raises nothing, and it makes no
  call over the network.
\<close>

theorem get_saved_none_when_record_incomplete:
  assumes "map_of config ''oauth'' = None \<or>
     (\<exists>oauth. map_of config ''oauth'' = Some (JObj oauth) \<and>
        (map_of oauth ''google'' = None \<or>
         (\<exists>g. map_of oauth ''google'' = Some g \<and>
            (\<not> truthy g \<or>
             (\<exists>d. g = JObj d \<and>
                (''refresh_token'' \<notin> fst ` set d \<or> ''client_id'' \<notin> fst ` set d
                  \<or> ''client_secret'' \<notin> fst ` set d))))))"
  shows "get_saved_google_credentials env config = (Inr None, [])"
  using assms
proof (elim disjE exE conjE)
  assume "map_of config ''oauth'' = None"
  then show ?thesis
    by (simp add: get_saved_google_credentials_def record_unusable_falsy)
next
  fix oauth
  assume "map_of config ''oauth'' = Some (JObj oauth)" "map_of oauth ''google'' = None"
  then show ?thesis
    by (simp add: get_saved_google_credentials_def record_unusable_falsy)
next
  fix oauth g
  assume "map_of config ''oauth'' = Some (JObj oauth)" "map_of oauth ''google'' = Some g"
    "\<not> truthy g"
  then show ?thesis
    by (simp add: get_saved_lookup record_unusable_falsy)
next
  fix oauth g d
  assume "map_of config ''oauth'' = Some (JObj oauth)" "map_of oauth ''google'' = Some g"
    "g = JObj d" "''refresh_token'' \<notin> fst ` set d"
  then show ?thesis
    by (simp add: get_saved_lookup record_unusable_JObj del: Credentials_init.simps)
next
  fix oauth g d
  assume "map_of config ''oauth'' = Some (JObj oauth)" "map_of oauth ''google'' = Some g"
    "g = JObj d" "''client_id'' \<notin> fst ` set d"
  then show ?thesis
    by (simp add: get_saved_lookup record_unusable_JObj del: Credentials_init.simps)
next
  fix oauth g d
  assume "map_of config ''oauth'' = Some (JObj oauth)" "map_of oauth ''google'' = Some g"
    "g = JObj d" "''client_secret'' \<notin> fst ` set d"
  then show ?thesis
    by (simp add: get_saved_lookup record_unusable_JObj del: Credentials_init.simps)
qed

theorem get_saved_none_when_record_incomplete_witness:
  "get_saved_google_credentials
     \<lparr>expired = (\<lambda>c. True), refresh = (\<lambda>c. Inl (TransportError ''offline''))\<rparr>
     [(''timezone'', JStr ''UTC''),
      (''oauth'', JObj [(''google'', JObj [(''refresh_token'', JStr ''r''),
                                           (''client_id'', JStr ''c'')])])]
   = (Inr None, [])"
  by (rule get_saved_none_when_record_incomplete) simp

text \<open>
  C1 as stated fails for a config in which \<^verbatim>\<open>"oauth"\<close> holds something that is not a
  mapping: there is no record at \<^verbatim>\<open>config["oauth"]["google"]\<close>, and the call
  \<^verbatim>\<open>.get("google", {})\<close> on the number raises \<^verbatim>\<open>AttributeError\<close>.
\<close>

theorem get_saved_raises_when_oauth_not_mapping:
  "get_saved_google_credentials
     \<lparr>expired = (\<lambda>c. False), refresh = (\<lambda>c. Inl (TransportError ''offline''))\<rparr>
     [(''oauth'', JInt 5)]
   = (Inl AttributeError, [])"
  by (simp add: get_saved_google_credentials_def)

text \<open>
  C2.  When the record under \<^verbatim>\<open>config["oauth"]["google"]\<close> has the five fields and the
  credential made from it is valid, \<^verbatim>\<open>get_saved_google_credentials\<close> returns that
  credential as it was made, its \<^verbatim>\<open>refresh_token\<close>, \<^verbatim>\<open>token\<close>, \<^verbatim>\<open>client_id\<close>,
  \<^verbatim>\<open>client_secret\<close> and \<^verbatim>\<open>token_uri\<close> being the stored values, and makes no call over the
  network.
\<close>

theorem get_saved_returns_valid_credential:
  assumes "map_of config ''oauth'' = Some (JObj oauth)"
    and "map_of oauth ''google'' = Some (JObj d)"
    and "{''refresh_token'', ''token'', ''client_id'', ''client_secret'', ''token_uri''}
           \<subseteq> fst ` set d"
    and "Credentials_init (JObj d) = Inr c"
    and "valid env c"
  shows "get_saved_google_credentials env config = (Inr (Some c), [])
     \<and> map_of d ''refresh_token'' = Some (refresh_token c)
     \<and> map_of d ''token'' = Some (token c)
     \<and> map_of d ''client_id'' = Some (client_id c)
     \<and> map_of d ''client_secret'' = Some (client_secret c)
     \<and> map_of d ''token_uri'' = Some (token_uri c)"
proof -
  from assms(3) have "record_unusable (JObj d) = Inr False"
    by (auto simp: record_unusable_JObj)
  with assms have "get_saved_google_credentials env config = (Inr (Some c), [])"
    by (simp add: get_saved_lookup)
  moreover from assms(3,4) have "map_of d ''refresh_token'' = Some (refresh_token c)"
    "map_of d ''token'' = Some (token c)" "map_of d ''client_id'' = Some (client_id c)"
    "map_of d ''client_secret'' = Some (client_secret c)"
    "map_of d ''token_uri'' = Some (token_uri c)"
    by (simp_all add: Credentials_init_field Credentials_init_fields)
  ultimately show ?thesis by simp
qed

theorem get_saved_returns_valid_credential_witness:
  "get_saved_google_credentials
     \<lparr>expired = (\<lambda>c. False), refresh = (\<lambda>c. Inl (TransportError ''offline''))\<rparr>
     [(''oauth'', JObj [(''google'',
        JObj [(''refresh_token'', JStr ''r''), (''token'', JStr ''t''),
              (''client_id'', JStr ''c''), (''client_secret'', JStr ''s''),
              (''token_uri'', JStr ''https://oauth2.example/token'')])])]
   = (Inr (Some \<lparr>token = JStr ''t'', refresh_token = JStr ''r'', id_token = JNull,
                   token_uri = JStr ''https://oauth2.example/token'',
                   client_id = JStr ''c'', client_secret = JStr ''s'', scopes = JNull\<rparr>), [])"
proof -
  let ?d = "[(''refresh_token'', JStr ''r''), (''token'', JStr ''t''),
             (''client_id'', JStr ''c''), (''client_secret'', JStr ''s''),
             (''token_uri'', JStr ''https://oauth2.example/token'')]"
  let ?c = "\<lparr>token = JStr ''t'', refresh_token = JStr ''r'', id_token = JNull,
             token_uri = JStr ''https://oauth2.example/token'',
             client_id = JStr ''c'', client_secret = JStr ''s'', scopes = JNull\<rparr>"
  let ?env = "\<lparr>expired = (\<lambda>c. False), refresh = (\<lambda>c. Inl (TransportError ''offline''))\<rparr>"
  have init: "Credentials_init (JObj ?d) = Inr ?c"
    by (simp add: Credentials_params_def kwarg_def)
  have ok: "valid ?env ?c"
    by (simp add: valid_def)
  have "get_saved_google_credentials ?env
          [(''oauth'', JObj [(''google'', JObj ?d)])] = (Inr (Some ?c), [])
     \<and> map_of ?d ''refresh_token'' = Some (refresh_token ?c)
     \<and> map_of ?d ''token'' = Some (token ?c)
     \<and> map_of ?d ''client_id'' = Some (client_id ?c)
     \<and> map_of ?d ''client_secret'' = Some (client_secret ?c)
     \<and> map_of ?d ''token_uri'' = Some (token_uri ?c)"
    by (rule get_saved_returns_valid_credential
          [where oauth = "[(''google'', JObj ?d)]", OF _ _ _ init ok]) simp_all
  then show ?thesis by simp
qed

text \<open>
  C3.  When the credential made from the record is not valid, the function does one of
  two things.  If the credential has expired and its refresh token is not empty, the
  function calls \<^verbatim>\<open>refresh\<close> once, on that credential, and returns the refreshed
  credential or lets the error of that one call through.  Otherwise it returns \<^verbatim>\<open>None\<close>
  and makes no call.
\<close>

theorem get_saved_refreshes_once:
  assumes "map_of config ''oauth'' = Some (JObj oauth)"
    and "map_of oauth ''google'' = Some (JObj d)"
    and "{''refresh_token'', ''client_id'', ''client_secret''} \<subseteq> fst ` set d"
    and "Credentials_init (JObj d) = Inr c"
    and "\<not> valid env c"
  shows "get_saved_google_credentials env config =
     (if expired env c \<and> truthy (refresh_token c) then
        (case refresh env c of
           Inl e \<Rightarrow> (Inl e, [c])
         | Inr c' \<Rightarrow> (Inr (Some c'), [c]))
      else (Inr None, []))"
proof -
  from assms(3) have "record_unusable (JObj d) = Inr False"
    by (auto simp: record_unusable_JObj)
  with assms show ?thesis
    by (simp add: get_saved_lookup)
qed

theorem get_saved_refreshes_once_witness:
  "get_saved_google_credentials
     \<lparr>expired = (\<lambda>c. True), refresh = (\<lambda>c. Inr (c\<lparr>token := JStr ''fresh''\<rparr>))\<rparr>
     [(''oauth'', JObj [(''google'',
        JObj [(''refresh_token'', JStr ''r''), (''token'', JStr ''t''),
              (''client_id'', JStr ''c''), (''client_secret'', JStr ''s''),
              (''token_uri'', JStr ''u'')])])]
   = (Inr (Some \<lparr>token = JStr ''fresh'', refresh_token = JStr ''r'', id_token = JNull,
                   token_uri = JStr ''u'', client_id = JStr ''c'',
                   client_secret = JStr ''s'', scopes = JNull\<rparr>),
      [\<lparr>token = JStr ''t'', refresh_token = JStr ''r'', id_token = JNull,
        token_uri = JStr ''u'', client_id = JStr ''c'',
        client_secret = JStr ''s'', scopes = JNull\<rparr>])"
proof -
  let ?d = "[(''refresh_token'', JStr ''r''), (''token'', JStr ''t''),
             (''client_id'', JStr ''c''), (''client_secret'', JStr ''s''),
             (''token_uri'', JStr ''u'')]"
  let ?c = "\<lparr>token = JStr ''t'', refresh_token = JStr ''r'', id_token = JNull,
             token_uri = JStr ''u'', client_id = JStr ''c'',
             client_secret = JStr ''s'', scopes = JNull\<rparr>"
  let ?env = "\<lparr>expired = (\<lambda>c. True), refresh = (\<lambda>c. Inr (c\<lparr>token := JStr ''fresh''\<rparr>))\<rparr>"
  have init: "Credentials_init (JObj ?d) = Inr ?c"
    by (simp add: Credentials_params_def kwarg_def)
  have stale: "\<not> valid ?env ?c"
    by (simp add: valid_def)
  have "get_saved_google_credentials ?env [(''oauth'', JObj [(''google'', JObj ?d)])] =
     (if expired ?env ?c \<and> truthy (refresh_token ?c) then
        (case refresh ?env ?c of
           Inl e \<Rightarrow> (Inl e, [?c])
         | Inr c' \<Rightarrow> (Inr (Some c'), [?c]))
      else (Inr None, []))"
    by (rule get_saved_refreshes_once
          [where oauth = "[(''google'', JObj ?d)]", OF _ _ _ init stale]) simp_all
  then show ?thesis by simp
qed

text \<open>
  C5 as stated fails for the record that it names: with \<^verbatim>\<open>refresh_token\<close>, \<^verbatim>\<open>client_id\<close>
  and \<^verbatim>\<open>client_secret\<close> but without \<^verbatim>\<open>token\<close>, the record passes the guard of lines 74 to
  79 and goes to the constructor, which has no value for its parameter \<^verbatim>\<open>token\<close>.
\<close>

theorem get_saved_raises_when_token_missing:
  "get_saved_google_credentials
     \<lparr>expired = (\<lambda>c. False), refresh = (\<lambda>c. Inl (TransportError ''offline''))\<rparr>
     [(''oauth'', JObj [(''google'',
        JObj [(''refresh_token'', JStr ''r''), (''client_id'', JStr ''c''),
              (''client_secret'', JStr ''s'')])])]
   = (Inl TypeError, [])"
  by (simp add: get_saved_google_credentials_def record_unusable_def py_or_def py_not_in_def
        Credentials_params_def)

text \<open>
  C5 (as amended).  For a record that is present under \<^verbatim>\<open>config["oauth"]["google"]\<close>:
  when it lacks \<^verbatim>\<open>refresh_token\<close>, \<^verbatim>\<open>client_id\<close> or \<^verbatim>\<open>client_secret\<close>, the function
  returns \<^verbatim>\<open>None\<close> without raising and without a call over the network; when it has these
  three, it is handed to the constructor whatever else it lacks, and an error of the
  constructor is the outcome of the function, again without a call over the network.
\<close>

theorem get_saved_guard_checks_three_fields:
  assumes "map_of config ''oauth'' = Some (JObj oauth)"
    and "map_of oauth ''google'' = Some (JObj d)"
  shows "(''refresh_token'' \<notin> fst ` set d \<or> ''client_id'' \<notin> fst ` set d
            \<or> ''client_secret'' \<notin> fst ` set d
          \<longrightarrow> get_saved_google_credentials env config = (Inr None, []))
     \<and> ({''refresh_token'', ''client_id'', ''client_secret''} \<subseteq> fst ` set d
          \<longrightarrow> (\<forall>e. Credentials_init (JObj d) = Inl e
                \<longrightarrow> get_saved_google_credentials env config = (Inl e, [])))"
proof (intro conjI impI allI)
  assume "''refresh_token'' \<notin> fst ` set d \<or> ''client_id'' \<notin> fst ` set d
            \<or> ''client_secret'' \<notin> fst ` set d"
  then have "record_unusable (JObj d) = Inr True"
    by (simp add: record_unusable_JObj)
  with assms show "get_saved_google_credentials env config = (Inr None, [])"
    by (simp add: get_saved_lookup del: Credentials_init.simps)
next
  fix e
  assume keys: "{''refresh_token'', ''client_id'', ''client_secret''} \<subseteq> fst ` set d"
    and init: "Credentials_init (JObj d) = Inl e"
  from keys have "record_unusable (JObj d) = Inr False"
    by (auto simp: record_unusable_JObj)
  with assms init show "get_saved_google_credentials env config = (Inl e, [])"
    by (simp add: get_saved_lookup del: Credentials_init.simps)
qed

theorem get_saved_guard_checks_three_fields_witness:
  "get_saved_google_credentials
     \<lparr>expired = (\<lambda>c. False), refresh = (\<lambda>c. Inl (TransportError ''offline''))\<rparr>
     [(''oauth'', JObj [(''google'',
        JObj [(''token'', JStr ''t''), (''client_id'', JStr ''c''),
              (''client_secret'', JStr ''s'')])])]
   = (Inr None, [])
   \<and> get_saved_google_credentials
     \<lparr>expired = (\<lambda>c. False), refresh = (\<lambda>c. Inl (TransportError ''offline''))\<rparr>
     [(''oauth'', JObj [(''google'',
        JObj [(''refresh_token'', JStr ''r''), (''client_id'', JStr ''c''),
              (''client_secret'', JStr ''s''), (''expiry'', JStr ''2019-01-01'')])])]
   = (Inl TypeError, [])"
proof -
  let ?env = "\<lparr>expired = (\<lambda>c. False), refresh = (\<lambda>c. Inl (TransportError ''offline''))\<rparr>"
  let ?d1 = "[(''token'', JStr ''t''), (''client_id'', JStr ''c''), (''client_secret'', JStr ''s'')]"
  let ?d2 = "[(''refresh_token'', JStr ''r''), (''client_id'', JStr ''c''),
              (''client_secret'', JStr ''s''), (''expiry'', JStr ''2019-01-01'')]"
  have a: "get_saved_google_credentials ?env [(''oauth'', JObj [(''google'', JObj ?d1)])]
             = (Inr None, [])"
    using get_saved_guard_checks_three_fields
      [of "[(''oauth'', JObj [(''google'', JObj ?d1)])]" "[(''google'', JObj ?d1)]" ?d1 ?env]
    by simp
  have init: "Credentials_init (JObj ?d2) = Inl TypeError"
    by (simp add: Credentials_params_def)
  have b: "get_saved_google_credentials ?env [(''oauth'', JObj [(''google'', JObj ?d2)])]
             = (Inl TypeError, [])"
    using get_saved_guard_checks_three_fields
      [of "[(''oauth'', JObj [(''google'', JObj ?d2)])]" "[(''google'', JObj ?d2)]" ?d2 ?env]
      init
    by simp
  from a b show ?thesis by simp
qed

text \<open>
  C8 as stated fails for a config in which \<^verbatim>\<open>"oauth"\<close> holds something that is not a
  mapping: the assignment of line 97 raises \<^verbatim>\<open>TypeError\<close> and the config stays as it
  was.
\<close>

theorem stash_raises_when_oauth_not_mapping:
  "stash_google_credentials [(''oauth'', JInt 5)]
     \<lparr>token = JStr ''t'', refresh_token = JStr ''r'', id_token = JNull,
      token_uri = JStr ''u'', client_id = JStr ''c'', client_secret = JStr ''s'',
      scopes = JNull\<rparr>
   = (Inl TypeError, [(''oauth'', JInt 5)])"
  by (simp add: stash_google_credentials_def)

text \<open>
  C8 (as amended).  For every credential and every config in which \<^verbatim>\<open>"oauth"\<close> is
  absent or holds a mapping, \<^verbatim>\<open>stash_google_credentials\<close> returns the config it was
  given, changed in place, and in it \<^verbatim>\<open>config["oauth"]["google"]\<close> is the record of
  exactly the five fields \<^verbatim>\<open>refresh_token\<close>, \<^verbatim>\<open>token\<close>, \<^verbatim>\<open>client_id\<close>, \<^verbatim>\<open>client_secret\<close> and
  \<^verbatim>\<open>token_uri\<close> of the credential, whatever was there before.  The function has no
  access to the file system: the dict is all it reads and writes.
\<close>

theorem stash_sets_credential_record:
  assumes "map_of config ''oauth'' = None \<or> (\<exists>oauth. map_of config ''oauth'' = Some (JObj oauth))"
  shows "\<exists>config' oauth'.
      stash_google_credentials config c = (Inr config', config')
    \<and> map_of config' ''oauth'' = Some (JObj oauth')
    \<and> map_of oauth' ''google'' =
        Some (JObj [(''refresh_token'', refresh_token c),
                    (''token'', token c),
                    (''client_id'', client_id c),
                    (''client_secret'', client_secret c),
                    (''token_uri'', token_uri c)])"
  using assms
proof
  assume none: "map_of config ''oauth'' = None"
  then have "''oauth'' \<notin> set (map fst config)"
    by (simp add: map_of_eq_None_iff)
  then show ?thesis
    by (simp add: stash_google_credentials_def Let_def map_of_update credential_record_def)
next
  assume "\<exists>oauth. map_of config ''oauth'' = Some (JObj oauth)"
  then obtain oauth where some: "map_of config ''oauth'' = Some (JObj oauth)" ..
  then have "''oauth'' \<in> set (map fst config)"
    by (rule key_of_lookup)
  with some show ?thesis
    by (simp add: stash_google_credentials_def Let_def map_of_update credential_record_def)
qed

theorem stash_sets_credential_record_witness:
  "\<exists>config' oauth'.
      stash_google_credentials
        [(''timezone'', JStr ''UTC''), (''oauth'', JObj [(''google'', JStr ''stale'')])]
        \<lparr>token = JStr ''t'', refresh_token = JStr ''r'', id_token = JNull,
         token_uri = JStr ''u'', client_id = JStr ''c'', client_secret = JStr ''s'',
         scopes = JNull\<rparr> = (Inr config', config')
    \<and> map_of config' ''oauth'' = Some (JObj oauth')
    \<and> map_of oauth' ''google'' =
        Some (JObj [(''refresh_token'', JStr ''r''), (''token'', JStr ''t''),
                    (''client_id'', JStr ''c''), (''client_secret'', JStr ''s''),
                    (''token_uri'', JStr ''u'')])"
  using stash_sets_credential_record
    [of "[(''timezone'', JStr ''UTC''), (''oauth'', JObj [(''google'', JStr ''stale'')])]"
      "\<lparr>token = JStr ''t'', refresh_token = JStr ''r'', id_token = JNull,
         token_uri = JStr ''u'', client_id = JStr ''c'', client_secret = JStr ''s'',
         scopes = JNull\<rparr>"]
  by simp

text \<open>
  C10.  Whatever the config and the credential, when \<^verbatim>\<open>stash_google_credentials\<close> ends
  (with or without an exception) every key of the config other than \<^verbatim>\<open>"oauth"\<close> has the
  value it had; and when \<^verbatim>\<open>config["oauth"]\<close> was a mapping, it is a mapping still, in
  which every key other than \<^verbatim>\<open>"google"\<close> has the value it had.
\<close>

theorem stash_frame:
  "(\<forall>k. k \<noteq> ''oauth'' \<longrightarrow>
       map_of (snd (stash_google_credentials config c)) k = map_of config k)
   \<and> (\<forall>oauth. map_of config ''oauth'' = Some (JObj oauth) \<longrightarrow>
        (\<exists>oauth'. map_of (snd (stash_google_credentials config c)) ''oauth'' = Some (JObj oauth')
           \<and> (\<forall>k. k \<noteq> ''google'' \<longrightarrow> map_of oauth' k = map_of oauth k)))"
proof (intro conjI allI impI)
  fix k :: string
  assume "k \<noteq> ''oauth''"
  then show "map_of (snd (stash_google_credentials config c)) k = map_of config k"
    by (auto simp: stash_google_credentials_def Let_def map_of_update
          split: option.splits sum.splits)
next
  fix oauth
  assume some: "map_of config ''oauth'' = Some (JObj oauth)"
  then have "''oauth'' \<in> set (map fst config)"
    by (rule key_of_lookup)
  with some show "\<exists>oauth'. map_of (snd (stash_google_credentials config c)) ''oauth''
          = Some (JObj oauth')
      \<and> (\<forall>k. k \<noteq> ''google'' \<longrightarrow> map_of oauth' k = map_of oauth k)"
    by (simp add: stash_google_credentials_def Let_def map_of_update)
qed

theorem stash_frame_witness:
  "map_of (snd (stash_google_credentials
       [(''timezone'', JStr ''UTC''), (''oauth'', JObj [(''github'', JStr ''gh'')])]
       \<lparr>token = JStr ''t'', refresh_token = JStr ''r'', id_token = JNull,
        token_uri = JStr ''u'', client_id = JStr ''c'', client_secret = JStr ''s'',
        scopes = JNull\<rparr>)) ''timezone'' = Some (JStr ''UTC'')
   \<and> (\<exists>oauth'. map_of (snd (stash_google_credentials
       [(''timezone'', JStr ''UTC''), (''oauth'', JObj [(''github'', JStr ''gh'')])]
       \<lparr>token = JStr ''t'', refresh_token = JStr ''r'', id_token = JNull,
        token_uri = JStr ''u'', client_id = JStr ''c'', client_secret = JStr ''s'',
        scopes = JNull\<rparr>)) ''oauth'' = Some (JObj oauth')
      \<and> map_of oauth' ''github'' = Some (JStr ''gh''))"
  using stash_frame
    [of "[(''timezone'', JStr ''UTC''), (''oauth'', JObj [(''github'', JStr ''gh'')])]"
      "\<lparr>token = JStr ''t'', refresh_token = JStr ''r'', id_token = JNull,
        token_uri = JStr ''u'', client_id = JStr ''c'', client_secret = JStr ''s'',
        scopes = JNull\<rparr>"]
  by (auto simp: stash_google_credentials_def)

section \<open>Properties of the config store\<close>

subsection \<open>Paths\<close>


lemma takeWhile_stop: "\<not> P x \<Longrightarrow> takeWhile P (xs @ x # ys) = takeWhile P xs"
  by (induction xs) auto

lemma dropWhile_stop: "\<not> P x \<Longrightarrow> dropWhile P (xs @ x # ys) = dropWhile P xs @ x # ys"
  by (induction xs) auto

lemma components_append_slash:
  "components (a @ CHR ''/'' # b) = components a @ components b"
proof (induction a rule: components.induct)
  case 1
  show ?case by simp
next
  case (2 c cs)
  show ?case
  proof (cases "c = CHR ''/''")
    case True
    with 2 show ?thesis by simp
  next
    case False
    with 2 show ?thesis
      by (simp add: takeWhile_stop dropWhile_stop Let_def)
  qed
qed

lemma dot_not_component: "''.'' \<notin> set (components s)"
  by (induction s rule: components.induct) (auto simp: Let_def)

lemma components_name:
  "components ''.config'' = [''.config'']"
  "components ''gcal-discord-poster'' = [''gcal-discord-poster'']"
  "components ''config.json'' = [''config.json'']"
  by (simp_all add: Let_def)

lemma expanduser_CONFIG_DIR:
  "expanduser home CONFIG_DIR = rstrip_slash home @ ''/.config/gcal-discord-poster''"
  by (simp add: expanduser_def CONFIG_DIR_def Let_def)

lemma get_config_path_eq:
  "get_config_path home = rstrip_slash home @ ''/.config/gcal-discord-poster/config.json''"
  by (simp add: get_config_path_def expanduser_CONFIG_DIR os_path_join_def CONFIG_FILE_NAME_def)

lemma components_config_dir:
  "components (expanduser home CONFIG_DIR)
     = components (rstrip_slash home) @ [''.config'', ''gcal-discord-poster'']"
proof -
  have "expanduser home CONFIG_DIR
      = rstrip_slash home @ CHR ''/'' # (''.config'' @ CHR ''/'' # ''gcal-discord-poster'')"
    by (simp add: expanduser_CONFIG_DIR)
  then show ?thesis
    by (simp only: components_append_slash components_name) simp
qed

lemma components_config_path:
  "components (get_config_path home)
     = components (expanduser home CONFIG_DIR) @ [''config.json'']"
proof -
  have "get_config_path home
      = expanduser home CONFIG_DIR @ CHR ''/'' # ''config.json''"
    by (simp add: get_config_path_eq expanduser_CONFIG_DIR)
  then show ?thesis
    by (simp only: components_append_slash components_name)
qed


lemma components_home_u: "components (rstrip_slash ''/home/u'') = [''home'', ''u'']"
  by (simp add: rstrip_slash_def Let_def)

subsection \<open>Making directories\<close>

declare os_makedirs.simps [simp del]

lemma os_mkdir_cases:
  "os_mkdir fs p = (r, fs') \<Longrightarrow>
     (r = Inr () \<and> node_at fs p = None \<and> node_at fs (butlast p) = Some Dir \<and> fs' = fs(p \<mapsto> Dir))
   \<or> (r \<in> {Inl FileExistsError, Inl FileNotFoundError, Inl NotADirectoryError} \<and> fs' = fs)"
  by (auto simp: os_mkdir_def split: if_splits option.splits node.splits)

lemma os_mkdir_frame:
  assumes "os_mkdir fs p = (r, fs')" and "fs' q \<noteq> fs q"
  shows "fs q = None \<and> fs' q = Some Dir \<and> q = p \<and> p \<noteq> []"
  using os_mkdir_cases [OF assms(1)] assms(2)
  by (auto simp: node_at_def split: if_splits)

lemma take_butlast_le: "n \<le> length (butlast p) \<Longrightarrow> take n (butlast p) = take n p"
  by (simp add: butlast_conv_take)

lemma os_makedirs_frame:
  "os_makedirs fs p = (r, fs') \<Longrightarrow> fs' q \<noteq> fs q \<Longrightarrow>
     fs q = None \<and> fs' q = Some Dir \<and> (\<exists>n. 0 < n \<and> n \<le> length p \<and> q = take n p)"
proof (induction fs p arbitrary: r fs' rule: os_makedirs.induct)
  case (1 fs p)
  let ?head = "butlast p"
  have self: "0 < length p \<and> length p \<le> length p \<and> p = take (length p) p" if "p \<noteq> []"
    using that by simp
  show ?case
  proof (cases "?head \<noteq> [] \<and> node_at fs ?head = None")
    case False
    with "1.prems" have "os_mkdir fs p = (r, fs')"
      by (simp add: os_makedirs.simps [of fs p] Let_def)
    from os_mkdir_frame [OF this "1.prems"(2)] self show ?thesis by blast
  next
    case True
    obtain r1 fs1 where rec: "os_makedirs fs ?head = (r1, fs1)"
      by (cases "os_makedirs fs ?head")
    have ih: "fs1 q \<noteq> fs q \<Longrightarrow>
        fs q = None \<and> fs1 q = Some Dir \<and> (\<exists>n. 0 < n \<and> n \<le> length ?head \<and> q = take n ?head)"
      using "1.IH" [OF refl _ rec] True by blast
    have up: "\<exists>n. 0 < n \<and> n \<le> length p \<and> q = take n p"
      if "\<exists>n. 0 < n \<and> n \<le> length ?head \<and> q = take n ?head"
    proof -
      from that obtain n where "0 < n" "n \<le> length ?head" "q = take n ?head" by blast
      then have "0 < n \<and> n \<le> length p \<and> q = take n p"
        by (simp add: take_butlast_le)
      then show ?thesis by blast
    qed
    from "1.prems"(1) True rec
    have step: "fs' = fs1 \<or> os_mkdir fs1 p = (r, fs')"
      by (auto simp: os_makedirs.simps [of fs p] Let_def split: sum.splits if_splits)
    show ?thesis
    proof (cases "fs' q = fs1 q")
      case True
      with "1.prems"(2) have "fs1 q \<noteq> fs q" by simp
      from ih [OF this] up True show ?thesis by simp
    next
      case False
      with step have mk: "os_mkdir fs1 p = (r, fs')" by auto
      from os_mkdir_frame [OF mk False]
      have q: "fs1 q = None" "fs' q = Some Dir" "q = p" "p \<noteq> []" by blast+
      have "fs q = None"
      proof (rule ccontr)
        assume "fs q \<noteq> None"
        with q(1) have "fs1 q \<noteq> fs q" by auto
        from ih [OF this] show False using \<open>fs q \<noteq> None\<close> by simp
      qed
      with q self show ?thesis by blast
    qed
  qed
qed

lemma os_makedirs_keeps:
  assumes "os_makedirs fs p = (r, fs')" and "fs q \<noteq> None"
  shows "fs' q = fs q"
proof (rule ccontr)
  assume "fs' q \<noteq> fs q"
  from os_makedirs_frame [OF assms(1) this] assms(2) show False by simp
qed

lemma os_makedirs_made:
  "os_makedirs fs p = (Inr (), fs') \<Longrightarrow> ''.'' \<notin> set p \<Longrightarrow> node_at fs' p = Some Dir"
proof (induction fs p arbitrary: fs' rule: os_makedirs.induct)
  case (1 fs p)
  have "p = [] \<or> last p \<noteq> ''.''"
    using "1.prems"(2) last_in_set by metis
  moreover have "node_at fs' p = Some Dir" if "os_mkdir fs1 p = (Inr (), fs')" for fs1
    using os_mkdir_cases [OF that] by (auto simp: node_at_def)
  ultimately show ?case
    using "1.prems"(1)
    by (auto simp: os_makedirs.simps [of fs p] Let_def node_at_def
          split: sum.splits if_splits prod.splits)
qed

lemma os_makedirs_error:
  "os_makedirs fs p = (Inl e, fs') \<Longrightarrow>
     e \<in> {FileExistsError, FileNotFoundError, NotADirectoryError}"
proof (induction fs p arbitrary: fs' rule: os_makedirs.induct)
  case (1 fs p)
  have mk: "e \<in> {FileExistsError, FileNotFoundError, NotADirectoryError}"
    if "os_mkdir fs1 p = (Inl e, fs')" for fs1
    using os_mkdir_cases [OF that] by auto
  show ?case
  proof (cases "butlast p \<noteq> [] \<and> node_at fs (butlast p) = None")
    case False
    with "1.prems" have "os_mkdir fs p = (Inl e, fs')"
      by (simp add: os_makedirs.simps [of fs p] Let_def)
    then show ?thesis by (rule mk)
  next
    case True
    obtain r1 fs1 where rec: "os_makedirs fs (butlast p) = (r1, fs1)"
      by (cases "os_makedirs fs (butlast p)")
    from "1.prems" True rec
    have "(r1 = Inl e \<and> fs' = fs1) \<or> os_mkdir fs1 p = (Inl e, fs')"
      by (auto simp: os_makedirs.simps [of fs p] Let_def split: sum.splits if_splits)
    then show ?thesis
    proof
      assume "r1 = Inl e \<and> fs' = fs1"
      with rec have "os_makedirs fs (butlast p) = (Inl e, fs')" by simp
      from "1.IH" [OF refl _ this] True show ?thesis by blast
    next
      assume "os_mkdir fs1 p = (Inl e, fs')"
      then show ?thesis by (rule mk)
    qed
  qed
qed


lemma take_length_butlast: "take (length (butlast p)) p = butlast p"
  by (metis butlast_conv_take length_butlast)

lemma node_at_upd_other: "q \<noteq> p \<Longrightarrow> node_at (fs(p \<mapsto> v)) q = node_at fs q"
  by (simp add: node_at_def)

lemma os_makedirs_creates:
  assumes "k < length p"
    and "\<forall>n\<le>k. node_at fs (take n p) = Some Dir"
    and "\<forall>n. k < n \<and> n \<le> length p \<longrightarrow> node_at fs (take n p) = None"
    and "''.'' \<notin> set p"
  shows "\<exists>fs'. os_makedirs fs p = (Inr (), fs')
           \<and> (\<forall>n\<le>length p. node_at fs' (take n p) = Some Dir)"
  using assms
proof (induction fs p rule: os_makedirs.induct)
  case (1 fs p)
  let ?head = "butlast p"
  from "1.prems"(1) have ne: "p \<noteq> []" by auto
  then have len: "length p = Suc (length ?head)" by simp
  have absent: "node_at fs p = None"
    using "1.prems"(1,3) by auto
  have notdot: "last p \<noteq> ''.''"
    using "1.prems"(4) ne last_in_set by metis
  show ?case
  proof (cases "?head \<noteq> [] \<and> node_at fs ?head = None")
    case False
    have "length ?head \<le> k"
    proof (rule ccontr)
      assume "\<not> length ?head \<le> k"
      then have "k < length ?head" "length ?head \<le> length p" by simp_all
      with "1.prems"(3) have "node_at fs (take (length ?head) p) = None" by blast
      then have "node_at fs ?head = None" by (simp only: take_length_butlast)
      with False have "?head = []" by simp
      with \<open>k < length ?head\<close> show False by simp
    qed
    with "1.prems"(2) have "node_at fs (take (length ?head) p) = Some Dir" by blast
    then have parent: "node_at fs ?head = Some Dir" by (simp only: take_length_butlast)
    with False absent have res: "os_makedirs fs p = (Inr (), fs(p \<mapsto> Dir))"
      by (auto simp: os_makedirs.simps [of fs p] Let_def os_mkdir_def)
    have "node_at (fs(p \<mapsto> Dir)) (take n p) = Some Dir" if "n \<le> length p" for n
    proof (cases "n = length p")
      case True
      then show ?thesis by (simp add: node_at_def)
    next
      case False
      with that have "n \<le> k" using \<open>length ?head \<le> k\<close> len by linarith
      with "1.prems"(2) have "node_at fs (take n p) = Some Dir" by blast
      moreover have "take n p \<noteq> p" using False that
        by (metis length_take min.absorb2)
      ultimately show ?thesis by (simp add: node_at_upd_other)
    qed
    with res show ?thesis by blast
  next
    case True
    have khead: "k < length ?head"
    proof (rule ccontr)
      assume "\<not> k < length ?head"
      then have "length ?head \<le> k" by simp
      with "1.prems"(2) have "node_at fs (take (length ?head) p) = Some Dir" by blast
      then have "node_at fs ?head = Some Dir" by (simp only: take_length_butlast)
      with True show False by simp
    qed
    have p2: "\<forall>n\<le>k. node_at fs (take n ?head) = Some Dir"
      using "1.prems"(2) khead by (simp add: take_butlast_le)
    have p3: "\<forall>n. k < n \<and> n \<le> length ?head \<longrightarrow> node_at fs (take n ?head) = None"
      using "1.prems"(3) by (auto simp: take_butlast_le)
    have p4: "''.'' \<notin> set ?head"
      using "1.prems"(4) in_set_butlastD by metis
    from "1.IH" [OF refl True khead p2 p3 p4]
    obtain fs1 where rec: "os_makedirs fs ?head = (Inr (), fs1)"
      and dirs: "\<forall>n\<le>length ?head. node_at fs1 (take n ?head) = Some Dir"
      by blast
    have "fs1 p = fs p"
    proof (rule ccontr)
      assume "fs1 p \<noteq> fs p"
      from os_makedirs_frame [OF rec this]
      obtain n where "n \<le> length ?head" "p = take n ?head" by blast
      then have "length p \<le> length ?head" by (metis length_take min.cobounded1)
      with len show False by linarith
    qed
    with absent ne have absent1: "node_at fs1 p = None" by (simp add: node_at_def)
    from dirs have parent1: "node_at fs1 ?head = Some Dir" by auto
    from True rec notdot absent1 parent1
    have res: "os_makedirs fs p = (Inr (), fs1(p \<mapsto> Dir))"
      by (simp add: os_makedirs.simps [of fs p] Let_def os_mkdir_def)
    have "node_at (fs1(p \<mapsto> Dir)) (take n p) = Some Dir" if "n \<le> length p" for n
    proof (cases "n = length p")
      case True
      then show ?thesis by (simp add: node_at_def)
    next
      case False
      with that have n: "n \<le> length ?head" using len by linarith
      with dirs have "node_at fs1 (take n ?head) = Some Dir" by blast
      with n have "node_at fs1 (take n p) = Some Dir" by (simp add: take_butlast_le)
      moreover have "take n p \<noteq> p" using False that
        by (metis length_take min.absorb2)
      ultimately show ?thesis by (simp add: node_at_upd_other)
    qed
    with res show ?thesis by blast
  qed
qed


lemma exists_iff_not_absent:
  "os_path_exists fs path \<longleftrightarrow> os_path_isdir fs path \<or> os_path_isfile fs path"
  by (auto simp: os_path_exists_def os_path_isdir_def os_path_isfile_def
        split: option.splits node.splits)

lemma setup_config_dir_again:
  assumes "setup_config_dir home fs = (Inr (), fs1)"
  shows "os_path_isdir fs1 (expanduser home CONFIG_DIR)
       \<and> setup_config_dir home fs1 = (Inr (), fs1)"
proof -
  let ?dir = "expanduser home CONFIG_DIR"
  have dir: "os_path_isdir fs1 ?dir"
  proof (cases "os_path_exists fs ?dir")
    case True
    with assms show ?thesis
      by (auto simp: setup_config_dir_def Let_def split: if_splits)
  next
    case False
    with assms have "os_makedirs fs (components ?dir) = (Inr (), fs1)"
      by (simp add: setup_config_dir_def Let_def)
    from os_makedirs_made [OF this dot_not_component] show ?thesis
      by (simp add: os_path_isdir_def)
  qed
  then have "os_path_exists fs1 ?dir"
    by (simp add: exists_iff_not_absent)
  with dir show ?thesis
    by (simp add: setup_config_dir_def Let_def)
qed

lemma setup_config_dir_RuntimeError:
  "(\<exists>m. fst (setup_config_dir home fs) = Inl (RuntimeError m))
     \<longleftrightarrow> os_path_exists fs (expanduser home CONFIG_DIR)
         \<and> \<not> os_path_isdir fs (expanduser home CONFIG_DIR)"
proof (cases "os_path_exists fs (expanduser home CONFIG_DIR)")
  case True
  then show ?thesis
    by (simp add: setup_config_dir_def Let_def)
next
  case False
  obtain r fs1 where mk: "os_makedirs fs (components (expanduser home CONFIG_DIR)) = (r, fs1)"
    by (cases "os_makedirs fs (components (expanduser home CONFIG_DIR))")
  have "r \<noteq> Inl (RuntimeError m)" for m
    using os_makedirs_error [of fs _ "RuntimeError m" fs1] mk by auto
  with False mk show ?thesis
    by (simp add: setup_config_dir_def Let_def)
qed

text \<open>
  C9 (as amended).  Let \<open>d\<close> be the path of the config directory.  (1) When the first
  \<open>k\<close> names of \<open>d\<close> lead through directories and nothing exists under the names that
  follow, \<open>d\<close> itself included, one call of \<^verbatim>\<open>setup_config_dir\<close> returns normally and
  makes the directory with every missing directory above it, and a second call returns
  normally and leaves the file system as it is.  (2) Whenever a call returns normally
  the directory exists afterwards and a further call returns normally without a change.
  (3) The call raises a \<^verbatim>\<open>RuntimeError\<close> exactly when the path exists and is not a
  directory.
\<close>

theorem setup_config_dir_idempotent:
  assumes d: "d = components (expanduser home CONFIG_DIR)"
  shows "(\<forall>k. k < length d
            \<and> (\<forall>n\<le>k. node_at fs (take n d) = Some Dir)
            \<and> (\<forall>n. k < n \<and> n \<le> length d \<longrightarrow> node_at fs (take n d) = None)
          \<longrightarrow> (\<exists>fs1. setup_config_dir home fs = (Inr (), fs1)
                \<and> (\<forall>n\<le>length d. node_at fs1 (take n d) = Some Dir)
                \<and> setup_config_dir home fs1 = (Inr (), fs1)))
     \<and> (\<forall>fs1. setup_config_dir home fs = (Inr (), fs1)
          \<longrightarrow> os_path_isdir fs1 (expanduser home CONFIG_DIR)
              \<and> setup_config_dir home fs1 = (Inr (), fs1))
     \<and> ((\<exists>m. fst (setup_config_dir home fs) = Inl (RuntimeError m))
          \<longleftrightarrow> os_path_exists fs (expanduser home CONFIG_DIR)
              \<and> \<not> os_path_isdir fs (expanduser home CONFIG_DIR))"
proof -
  have creates: "\<exists>fs1. setup_config_dir home fs = (Inr (), fs1)
          \<and> (\<forall>n\<le>length d. node_at fs1 (take n d) = Some Dir)
          \<and> setup_config_dir home fs1 = (Inr (), fs1)"
    if h: "k < length d \<and> (\<forall>n\<le>k. node_at fs (take n d) = Some Dir)
            \<and> (\<forall>n. k < n \<and> n \<le> length d \<longrightarrow> node_at fs (take n d) = None)" for k
  proof -
    from h have "node_at fs (take (length d) d) = None" by blast
    then have absent: "\<not> os_path_exists fs (expanduser home CONFIG_DIR)"
      by (simp add: os_path_exists_def d)
    have "''.'' \<notin> set d" by (simp add: d dot_not_component)
    with h os_makedirs_creates [of k d fs]
    obtain fs1 where mk: "os_makedirs fs d = (Inr (), fs1)"
      and dirs: "\<forall>n\<le>length d. node_at fs1 (take n d) = Some Dir"
      by blast
    from mk absent have first: "setup_config_dir home fs = (Inr (), fs1)"
      by (simp add: setup_config_dir_def Let_def d)
    from setup_config_dir_again [OF first] first dirs show ?thesis by blast
  qed
  have again: "os_path_isdir fs1 (expanduser home CONFIG_DIR)
       \<and> setup_config_dir home fs1 = (Inr (), fs1)"
    if "setup_config_dir home fs = (Inr (), fs1)" for fs1
    using that by (rule setup_config_dir_again)
  from creates again setup_config_dir_RuntimeError [of home fs] show ?thesis
    by blast
qed

theorem setup_config_dir_idempotent_witness:
  "\<exists>fs1. setup_config_dir ''/home/u''
          (\<lambda>p. if p = [''home''] \<or> p = [''home'', ''u''] then Some Dir else None)
            = (Inr (), fs1)
      \<and> node_at fs1 [''home'', ''u'', ''.config''] = Some Dir
      \<and> node_at fs1 [''home'', ''u'', ''.config'', ''gcal-discord-poster''] = Some Dir
      \<and> setup_config_dir ''/home/u'' fs1 = (Inr (), fs1)"
proof -
  let ?fs = "\<lambda>p. if p = [''home''] \<or> p = [''home'', ''u''] then Some Dir else None"
  let ?d = "[''home'', ''u'', ''.config'', ''gcal-discord-poster'']"
  have d: "?d = components (expanduser ''/home/u'' CONFIG_DIR)"
    by (simp add: components_config_dir components_home_u)
  have below: "\<forall>n\<le>2. node_at ?fs (take n ?d) = Some Dir"
    by (auto simp: node_at_def le_Suc_eq numeral_2_eq_2)
  have above: "\<forall>n. 2 < n \<and> n \<le> length ?d \<longrightarrow> node_at ?fs (take n ?d) = None"
    by (auto simp: node_at_def le_Suc_eq numeral_2_eq_2 numeral_3_eq_3)
  from setup_config_dir_idempotent [OF d, of ?fs] below above
  obtain fs1 where "setup_config_dir ''/home/u'' ?fs = (Inr (), fs1)"
    and dirs: "\<forall>n\<le>length ?d. node_at fs1 (take n ?d) = Some Dir"
    and "setup_config_dir ''/home/u'' fs1 = (Inr (), fs1)"
    by (metis (no_types, lifting) length_Cons list.size(3) numeral_2_eq_2 less_Suc_eq)
  moreover from spec [OF dirs, of 3]
  have "node_at fs1 [''home'', ''u'', ''.config''] = Some Dir"
    by (simp add: numeral_3_eq_3)
  moreover from spec [OF dirs, of 4]
  have "node_at fs1 [''home'', ''u'', ''.config'', ''gcal-discord-poster''] = Some Dir"
    by simp
  ultimately show ?thesis by blast
qed


text \<open>
  C9 as stated fails where a regular file stands on the way to the config directory, here
  \<^verbatim>\<open>/home/u/.config\<close>: the directory is absent, and the call does not make it but lets
  the \<^verbatim>\<open>NotADirectoryError\<close> of \<^verbatim>\<open>os.makedirs\<close> through.
\<close>

theorem setup_config_dir_fails_below_file:
  "\<not> os_path_exists
        (\<lambda>p. if p = [''home''] \<or> p = [''home'', ''u''] then Some Dir
             else if p = [''home'', ''u'', ''.config''] then Some (File []) else None)
        (expanduser ''/home/u'' CONFIG_DIR)
   \<and> setup_config_dir ''/home/u''
        (\<lambda>p. if p = [''home''] \<or> p = [''home'', ''u''] then Some Dir
             else if p = [''home'', ''u'', ''.config''] then Some (File []) else None)
     = (Inl NotADirectoryError,
        (\<lambda>p. if p = [''home''] \<or> p = [''home'', ''u''] then Some Dir
             else if p = [''home'', ''u'', ''.config''] then Some (File []) else None))"
  by (simp add: setup_config_dir_def os_path_exists_def Let_def components_config_dir
        components_home_u node_at_def os_makedirs.simps os_mkdir_def)

text \<open>
  C6.  When the config path is a directory, \<^verbatim>\<open>get_config\<close> and \<^verbatim>\<open>save_config\<close> (for any
  config) raise a \<^verbatim>\<open>RuntimeError\<close> whose message names the path and says that it is a
  directory, and \<^verbatim>\<open>save_config\<close> leaves the file system as it is.  When nothing exists
  at the config path, \<^verbatim>\<open>get_config\<close> returns the empty dict.
\<close>

theorem config_path_directory_conflict:
  "(os_path_isdir fs (get_config_path home) \<longrightarrow>
      get_config home fs =
        Inl (RuntimeError (''Config path at '' @ [CHR 0x27] @ get_config_path home
                             @ [CHR 0x27] @ '' is a directory.''))
    \<and> save_config home config fs =
        (Inl (RuntimeError (''Config path at '' @ [CHR 0x27] @ get_config_path home
                             @ [CHR 0x27] @ '' is a directory.'')), fs))
   \<and> (\<not> os_path_exists fs (get_config_path home) \<longrightarrow> get_config home fs = Inr (JObj []))"
  by (simp add: get_config_def save_config_def Let_def is_dir_msg_def exists_iff_not_absent)

theorem config_path_directory_conflict_witness:
  "get_config ''/home/u''
     (\<lambda>p. if p \<in> {[''home''], [''home'', ''u''], [''home'', ''u'', ''.config''],
                   [''home'', ''u'', ''.config'', ''gcal-discord-poster''],
                   [''home'', ''u'', ''.config'', ''gcal-discord-poster'', ''config.json'']}
          then Some Dir else None)
   = Inl (RuntimeError (''Config path at '' @ [CHR 0x27]
            @ ''/home/u/.config/gcal-discord-poster/config.json''
            @ [CHR 0x27] @ '' is a directory.''))
   \<and> save_config ''/home/u'' [(''a'', JInt 1)]
     (\<lambda>p. if p \<in> {[''home''], [''home'', ''u''], [''home'', ''u'', ''.config''],
                   [''home'', ''u'', ''.config'', ''gcal-discord-poster''],
                   [''home'', ''u'', ''.config'', ''gcal-discord-poster'', ''config.json'']}
          then Some Dir else None)
   = (Inl (RuntimeError (''Config path at '' @ [CHR 0x27]
            @ ''/home/u/.config/gcal-discord-poster/config.json''
            @ [CHR 0x27] @ '' is a directory.'')),
      (\<lambda>p. if p \<in> {[''home''], [''home'', ''u''], [''home'', ''u'', ''.config''],
                   [''home'', ''u'', ''.config'', ''gcal-discord-poster''],
                   [''home'', ''u'', ''.config'', ''gcal-discord-poster'', ''config.json'']}
          then Some Dir else None))
   \<and> get_config ''/home/u'' (\<lambda>p. if p = [''home''] \<or> p = [''home'', ''u''] then Some Dir else None)
   = Inr (JObj [])"
proof -
  let ?fs = "\<lambda>p. if p \<in> {[''home''], [''home'', ''u''], [''home'', ''u'', ''.config''],
                   [''home'', ''u'', ''.config'', ''gcal-discord-poster''],
                   [''home'', ''u'', ''.config'', ''gcal-discord-poster'', ''config.json'']}
          then Some Dir else None"
  let ?bare = "\<lambda>p. if p = [''home''] \<or> p = [''home'', ''u''] then Some Dir else None"
  have p: "components (get_config_path ''/home/u'')
      = [''home'', ''u'', ''.config'', ''gcal-discord-poster'', ''config.json'']"
    by (simp add: components_config_path components_config_dir components_home_u)
  have path: "get_config_path ''/home/u'' = ''/home/u/.config/gcal-discord-poster/config.json''"
    by (simp add: get_config_path_eq rstrip_slash_def)
  have dir: "os_path_isdir ?fs (get_config_path ''/home/u'')"
    unfolding os_path_isdir_def p by (simp add: node_at_def)
  have none: "\<not> os_path_exists ?bare (get_config_path ''/home/u'')"
    unfolding os_path_exists_def p by (simp add: node_at_def)
  from config_path_directory_conflict [of ?fs "''/home/u''" "[(''a'', JInt 1)]"] dir
  have a: "get_config ''/home/u'' ?fs
   = Inl (RuntimeError (''Config path at '' @ [CHR 0x27]
            @ ''/home/u/.config/gcal-discord-poster/config.json''
            @ [CHR 0x27] @ '' is a directory.''))"
    and b: "save_config ''/home/u'' [(''a'', JInt 1)] ?fs
   = (Inl (RuntimeError (''Config path at '' @ [CHR 0x27]
            @ ''/home/u/.config/gcal-discord-poster/config.json''
            @ [CHR 0x27] @ '' is a directory.'')), ?fs)"
    by (simp_all add: path)
  from config_path_directory_conflict [of ?bare "''/home/u''" "[]"] none
  have c: "get_config ''/home/u'' ?bare = Inr (JObj [])"
    by simp
  from a b c show ?thesis by blast
qed

lemma write_after_setup:
  assumes "setup_config_dir home fs = (Inr (), fs1)"
    and "\<not> os_path_isdir fs (get_config_path home)"
  shows "write_file fs1 (get_config_path home) text
           = (Inr (), fs1(components (get_config_path home) \<mapsto> File text))"
proof -
  let ?d = "components (expanduser home CONFIG_DIR)"
  let ?p = "components (get_config_path home)"
  have p: "?p = ?d @ [''config.json'']" by (rule components_config_path)
  from setup_config_dir_again [OF assms(1)]
  have parent: "node_at fs1 (butlast ?p) = Some Dir"
    by (simp add: p os_path_isdir_def)
  have "node_at fs1 ?p \<noteq> Some Dir"
  proof
    assume dir: "node_at fs1 ?p = Some Dir"
    have "fs1 ?p = fs ?p"
    proof (cases "os_path_exists fs (expanduser home CONFIG_DIR)")
      case True
      with assms(1) show ?thesis
        by (auto simp: setup_config_dir_def Let_def split: if_splits)
    next
      case False
      with assms(1) have mk: "os_makedirs fs ?d = (Inr (), fs1)"
        by (simp add: setup_config_dir_def Let_def)
      show ?thesis
      proof (rule ccontr)
        assume "fs1 ?p \<noteq> fs ?p"
        from os_makedirs_frame [OF mk this]
        obtain n where "n \<le> length ?d" "?p = take n ?d" by blast
        then have "length ?p \<le> length ?d" by (metis length_take min.cobounded1)
        then show False by (simp add: p)
      qed
    qed
    with dir have "node_at fs ?p = Some Dir" by (auto simp: node_at_def split: if_splits)
    with assms(2) show False by (simp add: os_path_isdir_def)
  qed
  with parent show ?thesis
    by (auto simp: write_file_def Let_def split: option.splits node.splits)
qed




section \<open>The decoder inverts the encoder\<close>

declare scan_once.simps [simp del] array_items.simps [simp del] object_members.simps [simp del]
declare digits_of.simps [simp del]

subsection \<open>Digits and characters\<close>

lemma digit_char_cases:
  fixes d :: nat
  assumes "d < 16"
  obtains "d = 0" | "d = 1" | "d = 2" | "d = 3" | "d = 4" | "d = 5" | "d = 6" | "d = 7"
    | "d = 8" | "d = 9" | "d = 10" | "d = 11" | "d = 12" | "d = 13" | "d = 14" | "d = 15"
  using assms by atomize_elim arith

lemma hex_val_digit_char: "d < 16 \<Longrightarrow> hex_val (digit_char d) = Some d"
  by (erule digit_char_cases) (simp_all add: hex_val_def digit_char_def)

lemma is_digit_digit_char: "d < 10 \<Longrightarrow> is_digit (digit_char d)"
  by (rule digit_char_cases [of d]) (simp_all add: is_digit_def digit_char_def)

lemma digit_val_digit_char: "d < 10 \<Longrightarrow> of_char (digit_char d) - 48 = d"
  by (rule digit_char_cases [of d]) (simp_all add: digit_char_def)

lemma digit_char_zero: "d < 10 \<Longrightarrow> digit_char d = CHR ''0'' \<Longrightarrow> d = 0"
  by (rule digit_char_cases [of d]) (simp_all add: digit_char_def)

lemma of_char_less_256: "of_char c < (256::nat)"
  by (metis char_of_char of_char_of mod_less_divisor zero_less_numeral)

lemma hex4_escape:
  "hex4 (take 4 (CHR ''0'' # CHR ''0'' # digit_char (of_char c div 16)
                   # digit_char (of_char c mod 16) # t)) = Some (of_char c)"
proof -
  have "(of_char c :: nat) < 16 * 16" using of_char_less_256 [of c] by simp
  then have "(of_char c :: nat) div 16 < 16" by (rule less_mult_imp_div_less)
  then have hi: "hex_val (digit_char (of_char c div 16)) = Some (of_char c div 16)"
    by (rule hex_val_digit_char)
  have lo: "hex_val (digit_char (of_char c mod 16)) = Some (of_char c mod 16)"
    by (rule hex_val_digit_char) simp
  have zero: "hex_val (CHR ''0'') = Some 0"
    by (simp add: hex_val_def)
  show ?thesis
    by (simp add: hex4_def hi lo zero)
qed

lemma scanstring_escape_char:
  "scanstring (escape_char c @ t) = cons_char c (scanstring t)"
proof -
  have u: "scanstring (CHR 0x5C # CHR ''u'' # CHR ''0'' # CHR ''0''
             # digit_char (of_char c div 16) # digit_char (of_char c mod 16) # t)
           = cons_char c (scanstring t)"
    using hex4_escape [of c t] of_char_less_256 [of c] by simp
  consider "c = CHR 0x22" | "c = CHR 0x5C" | "c = CHR 0x08" | "c = CHR 0x0C"
    | "c = CHR 0x0A" | "c = CHR 0x0D" | "c = CHR 0x09"
    | (plain) "c \<noteq> CHR 0x22" "c \<noteq> CHR 0x5C" "c \<noteq> CHR 0x08" "c \<noteq> CHR 0x0C"
        "c \<noteq> CHR 0x0A" "c \<noteq> CHR 0x0D" "c \<noteq> CHR 0x09" "CHR 0x20 \<le> c \<and> c \<le> CHR 0x7E"
    | (other) "c \<noteq> CHR 0x22" "c \<noteq> CHR 0x5C" "c \<noteq> CHR 0x08" "c \<noteq> CHR 0x0C"
        "c \<noteq> CHR 0x0A" "c \<noteq> CHR 0x0D" "c \<noteq> CHR 0x09" "\<not> (CHR 0x20 \<le> c \<and> c \<le> CHR 0x7E)"
    by blast
  then show ?thesis
  proof cases
    case plain
    then have "\<not> c < CHR 0x20" by auto
    with plain show ?thesis by (simp add: escape_char_def)
  next
    case other
    then have "escape_char c = [CHR 0x5C, CHR ''u'', CHR ''0'', CHR ''0'',
            digit_char (of_char c div 16), digit_char (of_char c mod 16)]"
      by (simp add: escape_char_def)
    with u show ?thesis by (simp del: scanstring.simps)
  qed (simp_all add: escape_char_def unescape_def)
qed

lemma scanstring_encoded:
  "scanstring (concat (map escape_char s) @ CHR 0x22 # rest) = Inr (s, rest)"
proof (induction s)
  case Nil
  show ?case by simp
next
  case (Cons c s)
  have "scanstring (concat (map escape_char (c # s)) @ CHR 0x22 # rest)
      = scanstring (escape_char c @ (concat (map escape_char s) @ CHR 0x22 # rest))"
    by simp
  also have "\<dots> = cons_char c (scanstring (concat (map escape_char s) @ CHR 0x22 # rest))"
    by (rule scanstring_escape_char)
  also have "\<dots> = Inr (c # s, rest)"
    by (simp only: Cons.IH cons_char_def sum.case prod.case)
  finally show ?case .
qed


lemma digits_of_nonempty: "digits_of n \<noteq> []"
  by (subst digits_of.simps) simp

lemma digits_of_digits: "c \<in> set (digits_of n) \<Longrightarrow> is_digit c"
proof (induction n arbitrary: c rule: digits_of.induct)
  case (1 n)
  show ?case
  proof (cases "n < 10")
    case True
    with "1.prems" show ?thesis
      by (simp add: digits_of.simps [of n] is_digit_digit_char)
  next
    case False
    have "n mod 10 < 10" by simp
    then have "is_digit (digit_char (n mod 10))" by (rule is_digit_digit_char)
    with False "1.prems" "1.IH" show ?thesis
      by (auto simp: digits_of.simps [of n])
  qed
qed

lemma nat_of_digits_snoc:
  "nat_of_digits (ds @ [c]) = 10 * nat_of_digits ds + (of_char c - 48)"
  by (simp add: nat_of_digits_def)

lemma nat_of_digits_digits_of: "nat_of_digits (digits_of n) = n"
proof (induction n rule: digits_of.induct)
  case (1 n)
  show ?case
  proof (cases "n < 10")
    case True
    then show ?thesis
      by (simp add: digits_of.simps [of n] nat_of_digits_def digit_val_digit_char)
  next
    case False
    have "of_char (digit_char (n mod 10)) - 48 = n mod 10"
      by (rule digit_val_digit_char) simp
    with False "1.IH" show ?thesis
      by (simp add: digits_of.simps [of n] nat_of_digits_snoc)
  qed
qed

lemma digits_of_leading_zero: "hd (digits_of n) = CHR ''0'' \<Longrightarrow> n = 0"
proof (induction n rule: digits_of.induct)
  case (1 n)
  show ?case
  proof (cases "n < 10")
    case True
    with "1.prems" show ?thesis
      by (simp add: digits_of.simps [of n] digit_char_zero)
  next
    case False
    with "1.prems" have "hd (digits_of (n div 10)) = CHR ''0''"
      by (simp add: digits_of.simps [of n] digits_of_nonempty)
    with False "1.IH" have "n div 10 = 0" by simp
    with False show ?thesis by simp
  qed
qed

lemma digits_of_zero: "digits_of 0 = ''0''"
  by (simp add: digits_of.simps [of 0] digit_char_def)

lemma ends_value_not_digit: "ends_value rest \<Longrightarrow> takeWhile is_digit rest = []"
  by (cases rest) (auto simp: ends_value_def is_digit_def)

lemma ends_value_not_float: "ends_value rest \<Longrightarrow> \<not> starts_float rest"
  by (cases rest) (auto simp: ends_value_def starts_float_def)

lemma takeWhile_digits:
  assumes "ends_value rest"
  shows "takeWhile is_digit (digits_of n @ rest) = digits_of n"
proof -
  have "takeWhile is_digit (digits_of n @ rest) = digits_of n @ takeWhile is_digit rest"
    by (rule takeWhile_append2) (rule digits_of_digits)
  with assms show ?thesis by (simp add: ends_value_not_digit)
qed

lemma match_number_digits:
  assumes "ends_value rest"
  shows "match_number (digits_of n @ rest) = Some (Inr (JInt (int n), rest))"
proof -
  obtain c cs where ds: "digits_of n = c # cs"
    using digits_of_nonempty [of n] by (cases "digits_of n") auto
  then have "is_digit c" using digits_of_digits [of c n] by simp
  then have notminus: "c \<noteq> CHR ''-''" by (auto simp: is_digit_def)
  have int_part: "(if hd (digits_of n) = CHR ''0'' then ''0'' else digits_of n) = digits_of n"
    using digits_of_leading_zero [of n] digits_of_zero by auto
  have tw: "takeWhile is_digit (digits_of n @ rest) = digits_of n"
    using assms by (rule takeWhile_digits)
  have neg: "take 1 (digits_of n @ rest) \<noteq> ''-''"
    using notminus by (simp add: ds)
  show ?thesis
    unfolding match_number_def Let_def
    using assms digits_of_nonempty [of n]
    by (simp only: neg if_False tw int_part) (simp add: nat_of_digits_digits_of ends_value_not_float)
qed

lemma match_number_repr_int:
  assumes "ends_value rest"
  shows "match_number (repr_int i @ rest) = Some (Inr (JInt i, rest))"
proof (cases "i < 0")
  case False
  with match_number_digits [OF assms, of "nat i"] show ?thesis
    by (simp add: repr_int_def)
next
  case True
  let ?n = "nat (- i)"
  have tw: "takeWhile is_digit (digits_of ?n @ rest) = digits_of ?n"
    using assms by (rule takeWhile_digits)
  have int_part: "(if hd (digits_of ?n) = CHR ''0'' then ''0'' else digits_of ?n) = digits_of ?n"
    using digits_of_leading_zero [of ?n] digits_of_zero by auto
  have t: "take 1 (CHR ''-'' # digits_of ?n @ rest) = ''-''" by simp
  have d: "drop 1 (CHR ''-'' # digits_of ?n @ rest) = digits_of ?n @ rest" by simp
  have "match_number (CHR ''-'' # digits_of ?n @ rest) = Some (Inr (JInt (- int ?n), rest))"
    unfolding match_number_def Let_def
    using assms digits_of_nonempty [of ?n]
    by (simp only: t d refl if_True tw int_part)
       (simp add: nat_of_digits_digits_of ends_value_not_float)
  with True show ?thesis
    by (simp add: repr_int_def)
qed

lemma repr_int_head: "\<exists>c cs. repr_int i = c # cs \<and> (is_digit c \<or> c = CHR ''-'')"
proof (cases "i < 0")
  case True
  then show ?thesis by (simp add: repr_int_def)
next
  case False
  obtain c cs where ds: "digits_of (nat i) = c # cs"
    using digits_of_nonempty [of "nat i"] by (cases "digits_of (nat i)") auto
  then have "is_digit c" using digits_of_digits [of c "nat i"] by simp
  with False ds show ?thesis by (simp add: repr_int_def)
qed

lemma scan_once_number:
  assumes "is_digit c \<or> c = CHR ''-''"
  shows "scan_once (c # cs) =
     (case match_number (c # cs) of
        Some res \<Rightarrow> res
      | None \<Rightarrow> if take 3 (c # cs) = ''NaN'' \<or> take 8 (c # cs) = ''Infinity''
                     \<or> take 9 (c # cs) = ''-Infinity''
                 then Inl OutsideModel else Inl JSONDecodeError)"
proof -
  from assms have "c \<noteq> CHR 0x22" "c \<noteq> CHR ''{''" "c \<noteq> CHR ''[''"
    "c \<noteq> CHR ''n''" "c \<noteq> CHR ''t''" "c \<noteq> CHR ''f''"
    by (auto simp: is_digit_def)
  then show ?thesis
    by (simp add: scan_once.simps [of "c # cs"])
qed

lemma scan_once_int:
  assumes "ends_value rest"
  shows "scan_once (repr_int i @ rest) = Inr (JInt i, rest)"
proof -
  obtain c cs where r: "repr_int i = c # cs" and h: "is_digit c \<or> c = CHR ''-''"
    using repr_int_head by blast
  from scan_once_number [OF h, of "cs @ rest"] match_number_repr_int [OF assms, of i]
  show ?thesis by (simp add: r)
qed


lemma dropWhile_replicate: "P x \<Longrightarrow> dropWhile P (replicate n x @ s) = dropWhile P s"
  by (induction n) auto

lemma skip_ws_indent: "skip_ws (newline_indent l @ s) = skip_ws s"
  by (simp add: skip_ws_def newline_indent_def is_ws_def dropWhile_replicate)

lemma skip_ws_space: "skip_ws (CHR '' '' # s) = skip_ws s"
  by (simp add: skip_ws_def is_ws_def)

lemma skip_ws_stop: "\<not> is_ws c \<Longrightarrow> skip_ws (c # s) = c # s"
  by (simp add: skip_ws_def)

lemma ends_value_indent: "ends_value (newline_indent l @ s)"
  by (simp add: ends_value_def newline_indent_def)

lemma ends_value_comma: "ends_value (CHR '','' # s)"
  by (simp add: ends_value_def)

lemma json_encode_head: "\<exists>c cs. json_encode l v = c # cs \<and> value_start c"
proof (cases v)
  case (JInt i)
  obtain c cs where "repr_int i = c # cs" "is_digit c \<or> c = CHR ''-''"
    using repr_int_head by blast
  with JInt show ?thesis
    by (auto simp: value_start_def is_ws_def is_digit_def)
qed (auto simp: value_start_def is_ws_def encode_string_def)

lemma join_items_head: "\<exists>t. join_items sep (x # xs) = x @ t"
  by (cases xs) simp_all

subsection \<open>Lists and dicts\<close>

lemma skip_ws_value: "value_start c \<Longrightarrow> skip_ws (c # s) = c # s"
  by (simp add: value_start_def skip_ws_stop)

lemma json_encode_nonempty: "json_encode l v \<noteq> []"
  using json_encode_head [of l v] by auto

lemma join_items_cons:
  "xs \<noteq> [] \<Longrightarrow> join_items sep (x # xs) = x @ sep @ join_items sep xs"
  by (cases xs) simp_all

lemma array_items_encoded:
  assumes "xs \<noteq> []"
    and "\<And>x rest. x \<in> set xs \<Longrightarrow> ends_value rest \<Longrightarrow>
           scan_once (json_encode l x @ rest) = Inr (normalise x, rest)"
  shows "array_items (join_items (CHR '','' # newline_indent l) (map (json_encode l) xs)
                        @ newline_indent l' @ CHR '']'' # rest)
         = Inr (map normalise xs, rest)"
  using assms
proof (induction xs rule: list_nonempty_induct)
  case (single x)
  let ?R = "newline_indent l' @ CHR '']'' # rest"
  have s: "scan_once (json_encode l x @ ?R) = Inr (normalise x, ?R)"
    by (rule single) (simp_all add: ends_value_indent)
  have len: "length ?R < length (json_encode l x @ ?R)"
    by (simp add: json_encode_nonempty)
  have ws: "skip_ws ?R = CHR '']'' # rest"
    by (simp add: skip_ws_indent skip_ws_stop is_ws_def)
  have "array_items (json_encode l x @ ?R) = Inr ([normalise x], rest)"
    by (subst array_items.simps) (simp add: s json_encode_nonempty ws)
  then show ?case by simp
next
  case (cons x xs)
  let ?sep = "CHR '','' # newline_indent l"
  let ?T = "join_items ?sep (map (json_encode l) xs) @ newline_indent l' @ CHR '']'' # rest"
  let ?R = "CHR '','' # newline_indent l @ ?T"
  have s: "scan_once (json_encode l x @ ?R) = Inr (normalise x, ?R)"
    by (rule cons.prems) (simp_all add: ends_value_comma)
  have len: "length ?R < length (json_encode l x @ ?R)"
    by (simp add: json_encode_nonempty)
  obtain y ys where xs: "xs = y # ys" using cons.hyps by (cases xs) auto
  obtain c cs where hd: "json_encode l y = c # cs" "value_start c"
    using json_encode_head by blast
  obtain t where "join_items ?sep (map (json_encode l) xs) = json_encode l y @ t"
    using join_items_head [of ?sep "json_encode l y" "map (json_encode l) ys"] xs by auto
  with hd have "skip_ws ?T = ?T"
    by (simp add: skip_ws_value)
  then have ws: "skip_ws (newline_indent l @ ?T) = ?T"
    by (simp only: skip_ws_indent)
  have ws': "skip_ws ?R = CHR '','' # newline_indent l @ ?T"
    by (simp add: skip_ws_stop is_ws_def)
  have ih: "array_items ?T = Inr (map normalise xs, rest)"
    by (rule cons.IH) (simp add: cons.prems)
  have "array_items (json_encode l x @ ?R) = Inr (normalise x # map normalise xs, rest)"
    by (subst array_items.simps) (simp add: s json_encode_nonempty ws ws' ih)
  moreover have "join_items ?sep (map (json_encode l) (x # xs)) = json_encode l x @ ?sep
      @ join_items ?sep (map (json_encode l) xs)"
    using cons.hyps by (simp add: join_items_cons)
  ultimately show ?case by simp
qed


lemma skip_ws_encoded: "skip_ws (json_encode l v @ s) = json_encode l v @ s"
proof -
  obtain c cs where "json_encode l v = c # cs" "value_start c"
    using json_encode_head by blast
  then show ?thesis by (simp add: skip_ws_value)
qed

lemma object_member_step:
  assumes "scan_once (json_encode l v @ R) = Inr (normalise v, R)"
  shows "object_members (encode_string k @ CHR '':'' # CHR '' '' # json_encode l v @ R) =
     (case skip_ws R of
        [] \<Rightarrow> Inl JSONDecodeError
      | c # r3 \<Rightarrow>
         if c = CHR ''}'' then Inr ([(k, normalise v)], r3)
         else if c = CHR '','' then
           (case object_members (skip_ws r3) of
              Inl e \<Rightarrow> Inl e
            | Inr (pairs, r4) \<Rightarrow> Inr ((k, normalise v) # pairs, r4))
         else Inl JSONDecodeError)"
proof -
  let ?after = "CHR '':'' # CHR '' '' # json_encode l v @ R"
  have shape: "encode_string k @ CHR '':'' # CHR '' '' # json_encode l v @ R
      = CHR 0x22 # (concat (map escape_char k) @ CHR 0x22 # ?after)"
    by (simp add: encode_string_def)
  have key: "scanstring (concat (map escape_char k) @ CHR 0x22 # ?after) = Inr (k, ?after)"
    by (rule scanstring_encoded)
  have colon: "skip_ws ?after = ?after"
    by (simp add: skip_ws_stop is_ws_def)
  have val: "skip_ws (CHR '' '' # json_encode l v @ R) = json_encode l v @ R"
    by (simp add: skip_ws_space skip_ws_encoded)
  show ?thesis
    unfolding shape
    by (subst object_members.simps)
       (simp add: key colon val assms json_encode_nonempty del: scanstring.simps)
qed

lemma object_members_encoded:
  assumes "kvs \<noteq> []"
    and "\<And>kv rest. kv \<in> set kvs \<Longrightarrow> ends_value rest \<Longrightarrow>
           scan_once (json_encode l (snd kv) @ rest) = Inr (normalise (snd kv), rest)"
  shows "object_members
           (join_items (CHR '','' # newline_indent l)
              (map (\<lambda>kv. encode_string (fst kv) @ CHR '':'' # CHR '' '' # json_encode l (snd kv)) kvs)
            @ newline_indent l' @ CHR ''}'' # rest)
         = Inr (map (\<lambda>kv. (fst kv, normalise (snd kv))) kvs, rest)"
  using assms
proof (induction kvs rule: list_nonempty_induct)
  case (single kv)
  let ?R = "newline_indent l' @ CHR ''}'' # rest"
  have s: "scan_once (json_encode l (snd kv) @ ?R) = Inr (normalise (snd kv), ?R)"
    by (rule single) (simp_all add: ends_value_indent)
  have ws: "skip_ws ?R = CHR ''}'' # rest"
    by (simp add: skip_ws_indent skip_ws_stop is_ws_def)
  from object_member_step [OF s, of "fst kv"] show ?case
    by (simp add: ws)
next
  case (cons kv kvs)
  let ?member = "\<lambda>kv. encode_string (fst kv) @ CHR '':'' # CHR '' '' # json_encode l (snd kv)"
  let ?T = "join_items (CHR '','' # newline_indent l) (map ?member kvs)
              @ newline_indent l' @ CHR ''}'' # rest"
  let ?R = "CHR '','' # newline_indent l @ ?T"
  have s: "scan_once (json_encode l (snd kv) @ ?R) = Inr (normalise (snd kv), ?R)"
    by (rule cons.prems) (simp_all add: ends_value_comma)
  obtain kv' kvs' where kvs: "kvs = kv' # kvs'" using cons.hyps by (cases kvs) auto
  obtain t where "join_items (CHR '','' # newline_indent l) (map ?member kvs) = ?member kv' @ t"
    using join_items_head [of "CHR '','' # newline_indent l" "?member kv'" "map ?member kvs'"] kvs
    by auto
  then have "skip_ws ?T = ?T"
    by (simp add: encode_string_def skip_ws_stop is_ws_def)
  then have ws: "skip_ws (newline_indent l @ ?T) = ?T"
    by (simp only: skip_ws_indent)
  have ws': "skip_ws ?R = ?R"
    by (simp add: skip_ws_stop is_ws_def)
  have ih: "object_members ?T = Inr (map (\<lambda>kv. (fst kv, normalise (snd kv))) kvs, rest)"
    by (rule cons.IH) (simp add: cons.prems)
  have "join_items (CHR '','' # newline_indent l) (map ?member (kv # kvs)) @ newline_indent l'
          @ CHR ''}'' # rest
      = encode_string (fst kv) @ CHR '':'' # CHR '' '' # json_encode l (snd kv) @ ?R"
    using cons.hyps by (simp add: join_items_cons)
  moreover have "object_members (encode_string (fst kv) @ CHR '':'' # CHR '' ''
          # json_encode l (snd kv) @ ?R)
      = Inr ((fst kv, normalise (snd kv)) # map (\<lambda>kv. (fst kv, normalise (snd kv))) kvs, rest)"
    unfolding object_member_step [OF s] ws' by (simp add: ws ih)
  ultimately show ?case by simp
qed


lemma update_new_key: "k \<notin> fst ` set al \<Longrightarrow> AList.update k v al = al @ [(k, v)]"
  by (induction al) auto

lemma foldl_update_distinct:
  "distinct (map fst (acc @ ps)) \<Longrightarrow>
     foldl (\<lambda>d kv. AList.update (fst kv) (snd kv) d) acc ps = acc @ ps"
proof (induction ps arbitrary: acc)
  case Nil
  show ?case by simp
next
  case (Cons p ps)
  from Cons.prems have new: "fst p \<notin> fst ` set acc" by auto
  from Cons.prems have "distinct (map fst ((acc @ [p]) @ ps))" by simp
  from Cons.IH [OF this] new show ?case
    by (simp add: update_new_key)
qed

lemma py_dict_distinct: "distinct (map fst ps) \<Longrightarrow> py_dict ps = ps"
  using foldl_update_distinct [of "[]" ps] by (simp add: py_dict_def)

lemma distinct_sorted_keys:
  "distinct (map fst kvs) \<Longrightarrow> distinct (map fst (sort_key fst kvs))"
  by (simp add: distinct_map)

lemma scan_once_encoded:
  "distinct_keys v \<Longrightarrow> ends_value rest \<Longrightarrow>
     scan_once (json_encode l v @ rest) = Inr (normalise v, rest)"
proof (induction v arbitrary: l rest)
  case JNull
  have "scan_once (''null'' @ rest) = Inr (JNull, rest)"
    by (subst scan_once.simps) simp
  then show ?case by simp
next
  case (JBool b)
  have "scan_once (''true'' @ rest) = Inr (JBool True, rest)"
    by (subst scan_once.simps) simp
  moreover have "scan_once (''false'' @ rest) = Inr (JBool False, rest)"
    by (subst scan_once.simps) simp
  ultimately show ?case by (cases b) simp_all
next
  case (JInt i)
  then show ?case by (simp add: scan_once_int)
next
  case (JStr s)
  have "scan_once (CHR 0x22 # (concat (map escape_char s) @ CHR 0x22 # rest)) = Inr (JStr s, rest)"
    by (subst scan_once.simps) (simp add: scanstring_encoded del: scanstring.simps)
  then show ?case by (simp add: encode_string_def)
next
  case (JArr xs)
  show ?case
  proof (cases "xs = []")
    case True
    have "scan_once (CHR ''['' # CHR '']'' # rest) = Inr (JArr [], rest)"
      by (subst scan_once.simps) (simp add: skip_ws_stop is_ws_def)
    with True show ?thesis by simp
  next
    case False
    let ?items = "join_items (CHR '','' # newline_indent (Suc l)) (map (json_encode (Suc l)) xs)
        @ newline_indent l @ CHR '']'' # rest"
    have ih: "scan_once (json_encode (Suc l) x @ r) = Inr (normalise x, r)"
      if "x \<in> set xs" "ends_value r" for x r
      using that JArr.IH [of x r "Suc l"] JArr.prems(1) by simp
    have items: "array_items ?items = Inr (map normalise xs, rest)"
      using False ih by (rule array_items_encoded)
    obtain y ys where xs: "xs = y # ys" using False by (cases xs) auto
    obtain c cs where hd: "json_encode (Suc l) y = c # cs" "value_start c"
      using json_encode_head by blast
    obtain t where "join_items (CHR '','' # newline_indent (Suc l)) (map (json_encode (Suc l)) xs)
        = json_encode (Suc l) y @ t"
      using join_items_head [of _ "json_encode (Suc l) y" "map (json_encode (Suc l)) ys"] xs
      by auto
    with hd obtain t' where shape: "?items = c # t'" by simp
    from hd have ws: "skip_ws (newline_indent (Suc l) @ c # t') = c # t'"
      by (simp only: skip_ws_indent) (simp add: skip_ws_value)
    from hd have c: "c \<noteq> CHR '']''" by (simp add: value_start_def)
    from items have items': "array_items (c # t') = Inr (map normalise xs, rest)"
      by (simp only: shape)
    have parsed: "scan_once (CHR ''['' # newline_indent (Suc l) @ c # t')
        = Inr (JArr (map normalise xs), rest)"
      by (subst scan_once.simps) (simp add: ws c items')
    have enc: "json_encode l (JArr xs) @ rest = CHR ''['' # newline_indent (Suc l) @ ?items"
      using False by simp
    show ?thesis
      unfolding enc shape using parsed by simp
  qed
next
  case (JObj kvs)
  show ?case
  proof (cases "kvs = []")
    case True
    have "scan_once (CHR ''{'' # CHR ''}'' # rest) = Inr (JObj [], rest)"
      by (subst scan_once.simps) (simp add: skip_ws_stop is_ws_def)
    with True show ?thesis by simp
  next
    case False
    let ?sorted = "sort_key fst kvs"
    let ?items = "join_items (CHR '','' # newline_indent (Suc l))
          (map (\<lambda>kv. encode_string (fst kv) @ CHR '':'' # CHR '' '' # json_encode (Suc l) (snd kv))
             ?sorted)
        @ newline_indent l @ CHR ''}'' # rest"
    from False have ne: "?sorted \<noteq> []"
      by (metis set_sort set_empty)
    have ih: "scan_once (json_encode (Suc l) (snd kv) @ r) = Inr (normalise (snd kv), r)"
      if "kv \<in> set ?sorted" "ends_value r" for kv r
    proof -
      from that(1) have "kv \<in> set kvs" by simp
      moreover have "snd kv \<in> Basic_BNFs.snds kv" by (cases kv) simp
      ultimately show ?thesis
        using JObj.IH [of kv "snd kv" r "Suc l"] JObj.prems(1) that(2) by simp
    qed
    have members: "object_members ?items
        = Inr (map (\<lambda>kv. (fst kv, normalise (snd kv))) ?sorted, rest)"
      using ne ih by (rule object_members_encoded)
    obtain kv' kvs' where sorted: "?sorted = kv' # kvs'" using ne by (cases ?sorted) auto
    have "\<exists>t'. ?items = CHR 0x22 # t'"
      by (cases kvs') (simp_all add: sorted encode_string_def)
    then obtain t' where shape: "?items = CHR 0x22 # t'" ..
    have ws: "skip_ws (newline_indent (Suc l) @ CHR 0x22 # t') = CHR 0x22 # t'"
      by (simp only: skip_ws_indent) (simp add: skip_ws_stop is_ws_def)
    have keys: "py_dict (map (\<lambda>kv. (fst kv, normalise (snd kv))) ?sorted)
        = map (\<lambda>kv. (fst kv, normalise (snd kv))) ?sorted"
      using JObj.prems(1) by (intro py_dict_distinct) (simp add: comp_def distinct_sorted_keys)
    from members have members': "object_members (CHR 0x22 # t')
        = Inr (map (\<lambda>kv. (fst kv, normalise (snd kv))) ?sorted, rest)"
      by (simp only: shape)
    have parsed: "scan_once (CHR ''{'' # newline_indent (Suc l) @ CHR 0x22 # t')
        = Inr (JObj (map (\<lambda>kv. (fst kv, normalise (snd kv))) ?sorted), rest)"
      by (subst scan_once.simps) (simp add: ws keys members')
    have enc: "json_encode l (JObj kvs) @ rest = CHR ''{'' # newline_indent (Suc l) @ ?items"
      using False by simp
    show ?thesis
      unfolding enc shape using parsed by simp
  qed
qed

lemma json_loads_json_dumps:
  "distinct_keys v \<Longrightarrow> json_loads (json_dumps v) = Inr (normalise v)"
  using scan_once_encoded [of v "[]" 0] skip_ws_encoded [of 0 v "[]"]
  by (simp add: json_loads_def json_dumps_def ends_value_def skip_ws_def)

lemma map_of_normalised:
  "map_of (map (\<lambda>kv. (fst kv, f (snd kv))) al) k = map_option f (map_of al k)"
  by (induction al) auto

lemma map_of_sorted:
  "distinct (map fst kvs) \<Longrightarrow> map_of (sort_key fst kvs) = map_of kvs"
  by (simp add: map_of_inject_set distinct_sorted_keys)

lemma py_eq_normalise: "distinct_keys v \<Longrightarrow> py_eq (normalise v) v"
proof (induction v)
  case (JArr xs)
  then show ?case by simp
next
  case (JObj kvs)
  have "py_eq (the (map_of (map (\<lambda>kv. (fst kv, normalise (snd kv))) (sort_key fst kvs)) k))
          (the (map_of kvs k))"
    if "k \<in> fst ` set kvs" for k
  proof -
    from that obtain v where v: "map_of kvs k = Some v"
      by (metis domD dom_map_of_conv_image_fst)
    then have mem: "(k, v) \<in> set kvs" by (rule map_of_SomeD)
    with JObj.prems have "distinct_keys v" by auto
    with mem have "py_eq (normalise v) v"
      using JObj.IH [of "(k, v)" v] by simp
    with v JObj.prems show ?thesis
      by (simp add: map_of_normalised map_of_sorted)
  qed
  then show ?case by (simp add: comp_def)
qed simp_all

subsection \<open>Saving and reading back\<close>

lemma save_config_result:
  assumes "save_config home config fs = (Inr (), fs')"
  shows "\<exists>fs1. fs' = fs1(components (get_config_path home) \<mapsto> File (json_dumps (JObj config)))"
proof -
  from assms have nodir: "\<not> os_path_isdir fs (get_config_path home)"
    by (auto simp: save_config_def Let_def split: if_splits)
  obtain r fs1 where s: "setup_config_dir home fs = (r, fs1)"
    by (cases "setup_config_dir home fs")
  with assms nodir have "r = Inr ()"
    by (cases r) (simp_all add: save_config_def Let_def)
  with s have ok: "setup_config_dir home fs = (Inr (), fs1)" by simp
  from write_after_setup [OF ok nodir] assms nodir ok
  have "fs' = fs1(components (get_config_path home) \<mapsto> File (json_dumps (JObj config)))"
    by (simp add: save_config_def Let_def)
  then show ?thesis by blast
qed

lemma config_path_not_root: "components (get_config_path home) \<noteq> []"
  by (simp add: components_config_path)

text \<open>
  The round trip on the values of this development, which hold no floating point
  number and no character of code point 256 or more.  Let \<open>c\<close> be such a config as
  Python holds it, with no key twice in a dict.  When \<^verbatim>\<open>save_config(c)\<close> returns,
  \<^verbatim>\<open>get_config()\<close> on the file system it leaves returns \<open>c\<close> with the items of every
  dict in the order of their keys, and that value equals \<open>c\<close> by Python's \<^verbatim>\<open>==\<close>.
\<close>

theorem save_then_get_config_roundtrip:
  assumes "distinct_keys (JObj c)"
    and "save_config home c fs = (Inr (), fs')"
  shows "get_config home fs' = Inr (normalise (JObj c))
       \<and> py_eq (normalise (JObj c)) (JObj c)"
proof -
  let ?p = "components (get_config_path home)"
  from save_config_result [OF assms(2)]
  have node: "node_at fs' ?p = Some (File (json_dumps (JObj c)))"
    by (auto simp: node_at_def config_path_not_root)
  then have "\<not> os_path_isdir fs' (get_config_path home)"
    "os_path_isfile fs' (get_config_path home)"
    "read_file fs' (get_config_path home) = Inr (json_dumps (JObj c))"
    by (simp_all add: os_path_isdir_def os_path_isfile_def read_file_def)
  then have "get_config home fs' = json_loads (json_dumps (JObj c))"
    by (simp add: get_config_def Let_def)
  with assms(1) show ?thesis
    by (simp only: json_loads_json_dumps py_eq_normalise simp_thms)
qed

theorem save_then_get_config_roundtrip_witness:
  "get_config ''/home/u''
     (snd (save_config ''/home/u''
        [(''b'', JArr [JInt (- 12), JStr ''x'']), (''a'', JObj [(''z'', JNull), (''y'', JBool True)])]
        (\<lambda>p. if p = [''home''] \<or> p = [''home'', ''u''] then Some Dir else None)))
   = Inr (JObj [(''a'', JObj [(''y'', JBool True), (''z'', JNull)]),
                (''b'', JArr [JInt (- 12), JStr ''x''])])"
proof -
  let ?c = "[(''b'', JArr [JInt (- 12), JStr ''x'']),
             (''a'', JObj [(''z'', JNull), (''y'', JBool True)])]"
  let ?fs = "\<lambda>p. if p = [''home''] \<or> p = [''home'', ''u''] then Some Dir else None"
  let ?made = "?fs([''home'', ''u'', ''.config''] \<mapsto> Dir,
        [''home'', ''u'', ''.config'', ''gcal-discord-poster''] \<mapsto> Dir)"
  have d: "components (expanduser ''/home/u'' CONFIG_DIR)
      = [''home'', ''u'', ''.config'', ''gcal-discord-poster'']"
    by (simp add: components_config_dir components_home_u)
  have p: "components (get_config_path ''/home/u'')
      = [''home'', ''u'', ''.config'', ''gcal-discord-poster'', ''config.json'']"
    by (simp add: components_config_path d)
  have made: "setup_config_dir ''/home/u'' ?fs = (Inr (), ?made)"
    unfolding setup_config_dir_def Let_def os_path_exists_def d
    by (simp add: node_at_def os_makedirs.simps os_mkdir_def)
  have nodir: "\<not> os_path_isdir ?fs (get_config_path ''/home/u'')"
    unfolding os_path_isdir_def p by (simp add: node_at_def)
  have "save_config ''/home/u'' ?c ?fs
      = write_file ?made (get_config_path ''/home/u'') (json_dumps (JObj ?c))"
    unfolding save_config_def Let_def
    by (simp only: nodir made if_False old.prod.case sum.case)
  also note write_after_setup [OF made nodir]
  finally have saved: "save_config ''/home/u'' ?c ?fs
      = (Inr (), snd (save_config ''/home/u'' ?c ?fs))"
    by (simp only: snd_conv)
  have keys: "distinct_keys (JObj ?c)"
    by simp
  have norm: "normalise (JObj ?c) = JObj [(''a'', JObj [(''y'', JBool True), (''z'', JNull)]),
                (''b'', JArr [JInt (- 12), JStr ''x''])]"
    by simp
  from save_then_get_config_roundtrip [OF keys saved] show ?thesis
    by (simp only: norm)
qed

end
